theory Spec2Isabelle
  imports Main "HOL-Library.Tree" "HOL-Library.Word"
begin

section \<open>The node store\<close>

text \<open>
  The container of \<^verbatim>\<open>bstree.h\<close> is a graph of heap nodes linked by raw pointers, so
  the model keeps an explicit store. A pointer value is null, the address of a node, or
  indeterminate: C++ leaves a member that no constructor initialiser writes with an
  indeterminate value, and reading such a value is undefined behaviour.
\<close>

type_synonym addr = nat

datatype ptr = Null | Ref addr | Indet

text \<open>What can go wrong when a pointer is used: each is undefined behaviour in C++.\<close>

datatype error = NullDeref | UninitRead | Dangling

text \<open>
  \<^verbatim>\<open>struct bst_node { T data; bst_node * father; bst_node *left, *right; ... }\<close>.
  \<open>data = None\<close> is a \<open>data\<close> member that was never written.
\<close>

record 'a bst_node =
  data :: "'a option"
  father :: ptr
  left :: ptr
  right :: ptr

text \<open>
  The free store: the nodes that are alive, and the next address \<^verbatim>\<open>new\<close> hands out.
  A freed address is never handed out again, so a pointer to a deleted node stays
  recognisable as dangling.
\<close>

record 'a world =
  cells :: "addr \<Rightarrow> 'a bst_node option"
  next_addr :: addr

definition world0 :: "'a world" where
  "world0 = \<lparr>cells = (\<lambda>_. None), next_addr = 0\<rparr>"

text \<open>\<^verbatim>\<open>p->...\<close> as a read: the node \<open>p\<close> points to.\<close>

definition load :: "'a world \<Rightarrow> ptr \<Rightarrow> error + 'a bst_node" where
  "load w p =
     (case p of
        Null \<Rightarrow> Inl NullDeref
      | Indet \<Rightarrow> Inl UninitRead
      | Ref a \<Rightarrow> (case cells w a of None \<Rightarrow> Inl Dangling | Some n \<Rightarrow> Inr n))"

text \<open>\<^verbatim>\<open>p->field = ...\<close>: the node \<open>p\<close> points to is replaced by \<open>f\<close> of it.\<close>

definition store :: "'a world \<Rightarrow> ptr \<Rightarrow> ('a bst_node \<Rightarrow> 'a bst_node) \<Rightarrow> error + 'a world" where
  "store w p f =
     (case p of
        Null \<Rightarrow> Inl NullDeref
      | Indet \<Rightarrow> Inl UninitRead
      | Ref a \<Rightarrow>
          (case cells w a of
             None \<Rightarrow> Inl Dangling
           | Some n \<Rightarrow> Inr (w\<lparr>cells := (cells w)(a := Some (f n))\<rparr>)))"

text \<open>\<^verbatim>\<open>new node_type(...)\<close>: the constructed node \<open>n\<close> is placed at a fresh address.\<close>

definition alloc :: "'a world \<Rightarrow> 'a bst_node \<Rightarrow> addr \<times> 'a world" where
  "alloc w n =
     (next_addr w,
      w\<lparr>cells := (cells w)(next_addr w := Some n), next_addr := Suc (next_addr w)\<rparr>)"

text \<open>Reading a \<open>T\<close> member: a value that was never written cannot be read.\<close>

definition rd :: "'a option \<Rightarrow> error + 'a" where
  "rd d = (case d of None \<Rightarrow> Inl UninitRead | Some x \<Rightarrow> Inr x)"

section \<open>Node constructors\<close>

text \<open>
  Each constructor starts from \<open>junk\<close>, the contents of the storage \<^verbatim>\<open>operator new\<close>
  returned, and writes only the members its initialiser list and body write.
  \<open>junk = blank\<close> is the abstract machine of C++ (every unwritten member is
  indeterminate); \<open>junk = nulled\<close> is storage whose pointer members happen to read as
  null.
\<close>

definition blank :: "'a bst_node" where
  "blank = \<lparr>data = None, father = Indet, left = Indet, right = Indet\<rparr>"

definition nulled :: "'a bst_node" where
  "nulled = \<lparr>data = None, father = Null, left = Null, right = Null\<rparr>"

text \<open>\<^verbatim>\<open>bst_node() {}\<close> writes nothing.\<close>

definition node_default :: "'a bst_node \<Rightarrow> 'a bst_node" where
  "node_default junk = junk"

text \<open>\<^verbatim>\<open>bst_node(T _val, bst_node * _pf = nullptr) : data(_val), father(_pf) {}\<close>
  writes \<open>data\<close> and \<open>father\<close>; \<open>left\<close> and \<open>right\<close> keep what the storage held.\<close>

definition node_leaf :: "'a bst_node \<Rightarrow> 'a \<Rightarrow> ptr \<Rightarrow> 'a bst_node" where
  "node_leaf junk v pf = junk\<lparr>data := Some v, father := pf\<rparr>"

section \<open>The tree object\<close>

text \<open>
  \<^verbatim>\<open>pointer _header_ptr; size_type _size;\<close> with \<^verbatim>\<open>typedef unsigned int size_type\<close>.
  \<open>self\<close> is the address of the tree object, which \<^verbatim>\<open>operator=\<close> compares.
\<close>

record bstree =
  self :: addr
  header_ptr :: ptr
  size_f :: "32 word"

text \<open>\<^verbatim>\<open>bstree() : _header_ptr(new node_type()), _size(0)
  { _header_ptr->father = _header_ptr->left = _header_ptr->right = _header_ptr; }\<close>\<close>

definition bstree_new :: "'a bst_node \<Rightarrow> addr \<Rightarrow> 'a world \<Rightarrow> error + 'a world \<times> bstree" where
  "bstree_new junk me w =
     (let (h, w1) = alloc w (node_default junk);
          t = \<lparr>self = me, header_ptr = Ref h, size_f = 0\<rparr>
      in case store w1 (header_ptr t) (\<lambda>n. n\<lparr>right := header_ptr t\<rparr>) of
           Inl e \<Rightarrow> Inl e
         | Inr w2 \<Rightarrow>
        (case store w2 (header_ptr t) (\<lambda>n. n\<lparr>left := header_ptr t\<rparr>) of
           Inl e \<Rightarrow> Inl e
         | Inr w3 \<Rightarrow>
        (case store w3 (header_ptr t) (\<lambda>n. n\<lparr>father := header_ptr t\<rparr>) of
           Inl e \<Rightarrow> Inl e
         | Inr w4 \<Rightarrow> Inr (w4, t))))"

text \<open>\<^verbatim>\<open>size_type size() const { return _size; }\<close>\<close>

definition size_bs :: "bstree \<Rightarrow> 32 word" where
  "size_bs t = size_f t"

text \<open>\<^verbatim>\<open>bool empty() const { return (_root() == _header_ptr); }\<close> with
  \<^verbatim>\<open>_root()\<close> the sentinel's \<open>father\<close>.\<close>

definition empty_bs :: "'a world \<Rightarrow> bstree \<Rightarrow> error + bool" where
  "empty_bs w t =
     (case load w (header_ptr t) of
        Inl e \<Rightarrow> Inl e
      | Inr h \<Rightarrow> (case father h of Indet \<Rightarrow> Inl UninitRead | r \<Rightarrow> Inr (r = header_ptr t)))"

text \<open>\<^verbatim>\<open>iterator begin() { return iterator(_left_most()); }\<close> with
  \<^verbatim>\<open>_left_most()\<close> the sentinel's \<open>right\<close>;
  \<^verbatim>\<open>iterator end() { return iterator(_header_ptr); }\<close>.
  An iterator is its \<^verbatim>\<open>_ptr\<close>.\<close>

definition begin_bs :: "'a world \<Rightarrow> bstree \<Rightarrow> error + ptr" where
  "begin_bs w t = (case load w (header_ptr t) of Inl e \<Rightarrow> Inl e | Inr h \<Rightarrow> Inr (right h))"

definition end_bs :: "bstree \<Rightarrow> ptr" where
  "end_bs t = header_ptr t"

text \<open>\<^verbatim>\<open>reference front() const { return _left_most()->data; }\<close> and
  \<^verbatim>\<open>reference back() const { return _right_most()->data; }\<close>, with
  \<^verbatim>\<open>_right_most()\<close> the sentinel's \<open>left\<close>.\<close>

definition front_bs :: "'a world \<Rightarrow> bstree \<Rightarrow> error + 'a" where
  "front_bs w t =
     (case load w (header_ptr t) of
        Inl e \<Rightarrow> Inl e
      | Inr h \<Rightarrow> (case load w (right h) of Inl e \<Rightarrow> Inl e | Inr n \<Rightarrow> rd (data n)))"

definition back_bs :: "'a world \<Rightarrow> bstree \<Rightarrow> error + 'a" where
  "back_bs w t =
     (case load w (header_ptr t) of
        Inl e \<Rightarrow> Inl e
      | Inr h \<Rightarrow> (case load w (left h) of Inl e \<Rightarrow> Inl e | Inr n \<Rightarrow> rd (data n)))"

section \<open>insert\<close>

text \<open>
  The search loop of \<^verbatim>\<open>insert\<close>:
  \<^verbatim>\<open>while (_ptr != nullptr) { if (_val == _ptr->data) return;
     else { _prev = _ptr; _ptr = (_val < _ptr->data) ? _ptr->left : _ptr->right; } }\<close>.
  The result is \<open>None\<close> inside \<open>Inr\<close> for the early return and the last \<^verbatim>\<open>_prev\<close>
  when the loop ends at a null pointer. The loop need not end (a store with a
  cycle): not returning is the value \<open>None\<close>.
\<close>

partial_function (option) insert_search ::
  "'a::linorder world \<Rightarrow> 'a \<Rightarrow> ptr \<Rightarrow> ptr \<Rightarrow> (error + ptr option) option" where
  "insert_search w v p prev =
     (case p of
        Null \<Rightarrow> Some (Inr (Some prev))
      | Indet \<Rightarrow> Some (Inl UninitRead)
      | Ref a \<Rightarrow>
          (case cells w a of
             None \<Rightarrow> Some (Inl Dangling)
           | Some n \<Rightarrow>
               (case data n of
                  None \<Rightarrow> Some (Inl UninitRead)
                | Some d \<Rightarrow>
                    if v = d then Some (Inr None)
                    else insert_search w v (if v < d then left n else right n) p)))"

declare insert_search.simps [code]

text \<open>The branch for an empty tree:
  \<^verbatim>\<open>_header_ptr->father = new node_type(_val, _header_ptr);
  _header_ptr->left = _header_ptr->right = _header_ptr->father;\<close>\<close>

definition insert_first :: "'a bst_node \<Rightarrow> 'a \<Rightarrow> 'a world \<Rightarrow> bstree \<Rightarrow> error + 'a world" where
  "insert_first junk v w t =
     (let (c, w1) = alloc w (node_leaf junk v (header_ptr t))
      in case store w1 (header_ptr t) (\<lambda>n. n\<lparr>father := Ref c\<rparr>) of
           Inl e \<Rightarrow> Inl e
         | Inr w2 \<Rightarrow>
        (case load w2 (header_ptr t) of
           Inl e \<Rightarrow> Inl e
         | Inr h \<Rightarrow>
        (case store w2 (header_ptr t) (\<lambda>n. n\<lparr>right := father h\<rparr>) of
           Inl e \<Rightarrow> Inl e
         | Inr w3 \<Rightarrow> store w3 (header_ptr t) (\<lambda>n. n\<lparr>left := father h\<rparr>))))"

text \<open>After the loop: the new node is hung below \<^verbatim>\<open>_prev\<close>,
  \<^verbatim>\<open>if (_val < _prev->data) _prev->left = new node_type(_val, _prev);
  else _prev->right = new node_type(_val, _prev);\<close>\<close>

definition insert_attach :: "'a::linorder bst_node \<Rightarrow> 'a \<Rightarrow> 'a world \<Rightarrow> ptr \<Rightarrow> error + 'a world" where
  "insert_attach junk v w prev =
     (case load w prev of
        Inl e \<Rightarrow> Inl e
      | Inr pn \<Rightarrow>
        (case rd (data pn) of
           Inl e \<Rightarrow> Inl e
         | Inr d \<Rightarrow>
             (let (c, w1) = alloc w (node_leaf junk v prev)
              in if v < d then store w1 prev (\<lambda>n. n\<lparr>left := Ref c\<rparr>)
                 else store w1 prev (\<lambda>n. n\<lparr>right := Ref c\<rparr>))))"

text \<open>"Adjust \<^verbatim>\<open>left_most\<close> and \<^verbatim>\<open>right_most\<close>":
  \<^verbatim>\<open>if (_header_ptr->left->left != nullptr) _header_ptr->left = _header_ptr->left->left;
  if (_header_ptr->right->right != nullptr) _header_ptr->right = _header_ptr->right->right;\<close>\<close>

definition adjust_left :: "'a world \<Rightarrow> bstree \<Rightarrow> error + 'a world" where
  "adjust_left w t =
     (case load w (header_ptr t) of
        Inl e \<Rightarrow> Inl e
      | Inr h \<Rightarrow>
        (case load w (left h) of
           Inl e \<Rightarrow> Inl e
         | Inr n \<Rightarrow>
             (case left n of
                Indet \<Rightarrow> Inl UninitRead
              | Null \<Rightarrow> Inr w
              | Ref b \<Rightarrow> store w (header_ptr t) (\<lambda>k. k\<lparr>left := Ref b\<rparr>))))"

definition adjust_right :: "'a world \<Rightarrow> bstree \<Rightarrow> error + 'a world" where
  "adjust_right w t =
     (case load w (header_ptr t) of
        Inl e \<Rightarrow> Inl e
      | Inr h \<Rightarrow>
        (case load w (right h) of
           Inl e \<Rightarrow> Inl e
         | Inr n \<Rightarrow>
             (case right n of
                Indet \<Rightarrow> Inl UninitRead
              | Null \<Rightarrow> Inr w
              | Ref b \<Rightarrow> store w (header_ptr t) (\<lambda>k. k\<lparr>right := Ref b\<rparr>))))"

text \<open>
  \<^verbatim>\<open>void bstree<T>::insert(reference _val)\<close>. The tree object is returned with the
  store: no statement of the function assigns \<^verbatim>\<open>_header_ptr\<close> or \<^verbatim>\<open>_size\<close>.
\<close>

definition insert_bs ::
  "'a::linorder bst_node \<Rightarrow> 'a \<Rightarrow> 'a world \<Rightarrow> bstree \<Rightarrow> (error + 'a world \<times> bstree) option" where
  "insert_bs junk v w t =
     (case empty_bs w t of
        Inl e \<Rightarrow> Some (Inl e)
      | Inr True \<Rightarrow>
          (case insert_first junk v w t of Inl e \<Rightarrow> Some (Inl e) | Inr w' \<Rightarrow> Some (Inr (w', t)))
      | Inr False \<Rightarrow>
          (case load w (header_ptr t) of
             Inl e \<Rightarrow> Some (Inl e)
           | Inr h \<Rightarrow>
               (case insert_search w v (father h) (father h) of
                  None \<Rightarrow> None
                | Some (Inl e) \<Rightarrow> Some (Inl e)
                | Some (Inr None) \<Rightarrow> Some (Inr (w, t))
                | Some (Inr (Some prev)) \<Rightarrow>
                    (case insert_attach junk v w prev of
                       Inl e \<Rightarrow> Some (Inl e)
                     | Inr w1 \<Rightarrow>
                    (case adjust_left w1 t of
                       Inl e \<Rightarrow> Some (Inl e)
                     | Inr w2 \<Rightarrow>
                    (case adjust_right w2 t of
                       Inl e \<Rightarrow> Some (Inl e)
                     | Inr w3 \<Rightarrow> Some (Inr (w3, t))))))))"

text \<open>A sequence of \<^verbatim>\<open>insert\<close> calls, stopping at the first that fails or does
  not return.\<close>

fun inserts ::
  "'a::linorder bst_node \<Rightarrow> 'a list \<Rightarrow> 'a world \<Rightarrow> bstree \<Rightarrow> (error + 'a world \<times> bstree) option" where
  "inserts junk [] w t = Some (Inr (w, t))"
| "inserts junk (v # vs) w t =
     (case insert_bs junk v w t of
        None \<Rightarrow> None
      | Some (Inl e) \<Rightarrow> Some (Inl e)
      | Some (Inr (w', t')) \<Rightarrow> inserts junk vs w' t')"

text \<open>\<^verbatim>\<open>bstree<T> t;\<close> in an empty store, followed by the \<^verbatim>\<open>insert\<close> calls.\<close>

definition build :: "'a::linorder bst_node \<Rightarrow> 'a list \<Rightarrow> (error + 'a world \<times> bstree) option" where
  "build junk vs =
     (case bstree_new junk 0 world0 of
        Inl e \<Rightarrow> Some (Inl e)
      | Inr (w, t) \<Rightarrow> inserts junk vs w t)"

section \<open>find\<close>

text \<open>
  \<^verbatim>\<open>pointer _ptr = _root();
  while (_ptr != nullptr) { if (_val == _ptr->data) break;
     else _ptr = (_val < _ptr->data) ? _ptr->left : _ptr->right; }\<close>
  The loop returns the final \<^verbatim>\<open>_ptr\<close>.
\<close>

partial_function (option) find_loop ::
  "'a::linorder world \<Rightarrow> 'a \<Rightarrow> ptr \<Rightarrow> (error + ptr) option" where
  "find_loop w v p =
     (case p of
        Null \<Rightarrow> Some (Inr Null)
      | Indet \<Rightarrow> Some (Inl UninitRead)
      | Ref a \<Rightarrow>
          (case cells w a of
             None \<Rightarrow> Some (Inl Dangling)
           | Some n \<Rightarrow>
               (case data n of
                  None \<Rightarrow> Some (Inl UninitRead)
                | Some d \<Rightarrow>
                    if v = d then Some (Inr p)
                    else find_loop w v (if v < d then left n else right n))))"

declare find_loop.simps [code]

text \<open>\<^verbatim>\<open>if (_ptr == nullptr) return end(); else return iterator(_ptr);\<close>\<close>

definition find_bs :: "'a::linorder world \<Rightarrow> bstree \<Rightarrow> 'a \<Rightarrow> (error + ptr) option" where
  "find_bs w t v =
     (case load w (header_ptr t) of
        Inl e \<Rightarrow> Some (Inl e)
      | Inr h \<Rightarrow>
          (case find_loop w v (father h) of
             None \<Rightarrow> None
           | Some (Inl e) \<Rightarrow> Some (Inl e)
           | Some (Inr p) \<Rightarrow> Some (Inr (if p = Null then end_bs t else p))))"

section \<open>The iterator's increment\<close>

text \<open>
  \<^verbatim>\<open>bst_iterator & operator++()\<close>. The source writes the cursor as \<^verbatim>\<open>this->ptr\<close>;
  the only member of the iterator is \<^verbatim>\<open>_ptr\<close>, which \<^verbatim>\<open>(*this)->\<close> reads, and the
  model takes the two to be the same cursor.

  \<^verbatim>\<open>while ((*this)->left != nullptr) this->ptr = (*this)->left;\<close>
\<close>

partial_function (option) descend_left :: "'a world \<Rightarrow> ptr \<Rightarrow> (error + ptr) option" where
  "descend_left w p =
     (case load w p of
        Inl e \<Rightarrow> Some (Inl e)
      | Inr n \<Rightarrow>
          (case left n of
             Indet \<Rightarrow> Some (Inl UninitRead)
           | Null \<Rightarrow> Some (Inr p)
           | Ref l \<Rightarrow> descend_left w (Ref l)))"

declare descend_left.simps [code]

text \<open>\<^verbatim>\<open>while (prev == (*this)->right) { prev = this->ptr; this->ptr = (*this)->father; }\<close>\<close>

partial_function (option) climb_right :: "'a world \<Rightarrow> ptr \<Rightarrow> ptr \<Rightarrow> (error + ptr) option" where
  "climb_right w prev p =
     (case load w p of
        Inl e \<Rightarrow> Some (Inl e)
      | Inr n \<Rightarrow>
          (case right n of
             Indet \<Rightarrow> Some (Inl UninitRead)
           | r \<Rightarrow> if prev = r then climb_right w p (father n) else Some (Inr p)))"

declare climb_right.simps [code]

text \<open>
  \<^verbatim>\<open>if ((*this)->right != nullptr) { this->ptr = (*this)->right; while ... }
  else { bst_node * prev = this->ptr; this->ptr = (*this)->father; while ... }\<close>
\<close>

definition increment :: "'a world \<Rightarrow> ptr \<Rightarrow> (error + ptr) option" where
  "increment w p =
     (case load w p of
        Inl e \<Rightarrow> Some (Inl e)
      | Inr n \<Rightarrow>
          (case right n of
             Indet \<Rightarrow> Some (Inl UninitRead)
           | Null \<Rightarrow> climb_right w p (father n)
           | Ref r \<Rightarrow> descend_left w (Ref r)))"

text \<open>
  The loop \<^verbatim>\<open>for (it = begin(); it != end(); ++it)\<close>, collecting \<^verbatim>\<open>it->data\<close>, for at
  most \<open>k\<close> rounds: \<open>Inr (xs, True)\<close> when \<^verbatim>\<open>end()\<close> was reached after yielding \<open>xs\<close>,
  \<open>Inr (xs, False)\<close> when the \<open>k\<close> rounds were used up first.
\<close>

fun walk :: "nat \<Rightarrow> 'a world \<Rightarrow> bstree \<Rightarrow> ptr \<Rightarrow> (error + 'a list \<times> bool) option" where
  "walk 0 w t p = Some (Inr ([], p = end_bs t))"
| "walk (Suc k) w t p =
     (if p = end_bs t then Some (Inr ([], True))
      else
        (case load w p of
           Inl e \<Rightarrow> Some (Inl e)
         | Inr n \<Rightarrow>
        (case rd (data n) of
           Inl e \<Rightarrow> Some (Inl e)
         | Inr x \<Rightarrow>
        (case increment w p of
           None \<Rightarrow> None
         | Some (Inl e) \<Rightarrow> Some (Inl e)
         | Some (Inr q) \<Rightarrow>
        (case walk k w t q of
           None \<Rightarrow> None
         | Some (Inl e) \<Rightarrow> Some (Inl e)
         | Some (Inr (xs, fin)) \<Rightarrow> Some (Inr (x # xs, fin)))))))"

section \<open>Destruction and clear\<close>

text \<open>
  \<^verbatim>\<open>delete p\<close> for a node pointer: nothing for a null pointer; otherwise the destructor
  \<^verbatim>\<open>~bst_node() { delete left; delete right; }\<close> runs on the node, then its storage is
  released.
\<close>

partial_function (option) node_delete :: "'a world \<Rightarrow> ptr \<Rightarrow> (error + 'a world) option" where
  "node_delete w p =
     (case p of
        Null \<Rightarrow> Some (Inr w)
      | Indet \<Rightarrow> Some (Inl UninitRead)
      | Ref a \<Rightarrow>
          (case cells w a of
             None \<Rightarrow> Some (Inl Dangling)
           | Some n \<Rightarrow>
               Option.bind (node_delete w (left n)) (\<lambda>r1.
                 case r1 of
                   Inl e \<Rightarrow> Some (Inl e)
                 | Inr w1 \<Rightarrow>
                     (case cells w1 a of
                        None \<Rightarrow> Some (Inl Dangling)
                      | Some n1 \<Rightarrow>
                          Option.bind (node_delete w1 (right n1)) (\<lambda>r2.
                            case r2 of
                              Inl e \<Rightarrow> Some (Inl e)
                            | Inr w2 \<Rightarrow>
                                (case cells w2 a of
                                   None \<Rightarrow> Some (Inl Dangling)
                                 | Some _ \<Rightarrow> Some (Inr (w2\<lparr>cells := (cells w2)(a := None)\<rparr>))))))))"

declare node_delete.simps [code]

text \<open>\<^verbatim>\<open>if (!empty()) { delete _root(); _root() = _header_ptr; }\<close>\<close>

definition clear_bs :: "'a world \<Rightarrow> bstree \<Rightarrow> (error + 'a world \<times> bstree) option" where
  "clear_bs w t =
     (case empty_bs w t of
        Inl e \<Rightarrow> Some (Inl e)
      | Inr True \<Rightarrow> Some (Inr (w, t))
      | Inr False \<Rightarrow>
          (case load w (header_ptr t) of
             Inl e \<Rightarrow> Some (Inl e)
           | Inr h \<Rightarrow>
               (case node_delete w (father h) of
                  None \<Rightarrow> None
                | Some (Inl e) \<Rightarrow> Some (Inl e)
                | Some (Inr w1) \<Rightarrow>
                    (case store w1 (header_ptr t) (\<lambda>n. n\<lparr>father := header_ptr t\<rparr>) of
                       Inl e \<Rightarrow> Some (Inl e)
                     | Inr w2 \<Rightarrow> Some (Inr (w2, t))))))"

section \<open>Copying and moving nodes\<close>

text \<open>
  \<^verbatim>\<open>bst_node(const bst_node & other, bst_node * const pf = nullptr)
     : data(other.data), father(pf)
  { if(other.left) { left = new bst_node(*other.left, this); }
    if(other.right) { right = new bst_node(*other.right, this); } }\<close>
  The clone is allocated first (the enclosing \<^verbatim>\<open>new\<close>), its initialiser list writes
  \<open>data\<close> and \<open>father\<close>, and the body writes \<open>left\<close> only under the first test and
  \<open>right\<close> only under the second. The result is the clone's address.
\<close>

partial_function (option) node_copy ::
  "'a bst_node \<Rightarrow> 'a world \<Rightarrow> ptr \<Rightarrow> ptr \<Rightarrow> (error + addr \<times> 'a world) option" where
  "node_copy junk w other pf =
     (case load w other of
        Inl e \<Rightarrow> Some (Inl e)
      | Inr src \<Rightarrow>
        (case rd (data src) of
           Inl e \<Rightarrow> Some (Inl e)
         | Inr d \<Rightarrow>
             (let (c, w1) = alloc w (junk\<lparr>data := Some d, father := pf\<rparr>)
              in Option.bind
                   (case load w1 other of
                      Inl e \<Rightarrow> Some (Inl e)
                    | Inr o1 \<Rightarrow>
                        (case left o1 of
                           Indet \<Rightarrow> Some (Inl UninitRead)
                         | Null \<Rightarrow> Some (Inr w1)
                         | Ref l \<Rightarrow>
                             Option.bind (node_copy junk w1 (Ref l) (Ref c)) (\<lambda>r.
                               case r of
                                 Inl e \<Rightarrow> Some (Inl e)
                               | Inr (cl, w2) \<Rightarrow> Some (store w2 (Ref c) (\<lambda>n. n\<lparr>left := Ref cl\<rparr>)))))
                   (\<lambda>r1.
                      case r1 of
                        Inl e \<Rightarrow> Some (Inl e)
                      | Inr w3 \<Rightarrow>
                          (case load w3 other of
                             Inl e \<Rightarrow> Some (Inl e)
                           | Inr o2 \<Rightarrow>
                               (case right o2 of
                                  Indet \<Rightarrow> Some (Inl UninitRead)
                                | Null \<Rightarrow> Some (Inr (c, w3))
                                | Ref r \<Rightarrow>
                                    Option.bind (node_copy junk w3 (Ref r) (Ref c)) (\<lambda>r2.
                                      case r2 of
                                        Inl e \<Rightarrow> Some (Inl e)
                                      | Inr (cr, w4) \<Rightarrow>
                                          (case store w4 (Ref c) (\<lambda>n. n\<lparr>right := Ref cr\<rparr>) of
                                             Inl e \<Rightarrow> Some (Inl e)
                                           | Inr w5 \<Rightarrow> Some (Inr (c, w5))))))))))"

declare node_copy.simps [code]

text \<open>
  \<^verbatim>\<open>bst_node(bst_node&& other, const bst_node * pf = nullptr)
     : data(std::move(other.data)), father(pf), left(other.left), right(other.right)
  { left->father = right->father = this;
    other.left = other.right = nullptr; }\<close>
  constructed by \<^verbatim>\<open>new\<close>. All four members are written by the initialiser list. In
  the chained assignment the right operand \<^verbatim>\<open>right->father = this\<close> is evaluated
  before \<^verbatim>\<open>left->father\<close> is written; \<^verbatim>\<open>other.right\<close> is written before
  \<^verbatim>\<open>other.left\<close>.
\<close>

definition node_move :: "'a world \<Rightarrow> ptr \<Rightarrow> ptr \<Rightarrow> error + addr \<times> 'a world" where
  "node_move w other pf =
     (case load w other of
        Inl e \<Rightarrow> Inl e
      | Inr src \<Rightarrow>
          (let (c, w1) = alloc w \<lparr>data = data src, father = pf, left = left src, right = right src\<rparr>
           in case load w1 (Ref c) of
                Inl e \<Rightarrow> Inl e
              | Inr n \<Rightarrow>
             (case store w1 (right n) (\<lambda>k. k\<lparr>father := Ref c\<rparr>) of
                Inl e \<Rightarrow> Inl e
              | Inr w2 \<Rightarrow>
             (case load w2 (Ref c) of
                Inl e \<Rightarrow> Inl e
              | Inr n' \<Rightarrow>
             (case store w2 (left n') (\<lambda>k. k\<lparr>father := Ref c\<rparr>) of
                Inl e \<Rightarrow> Inl e
              | Inr w3 \<Rightarrow>
             (case store w3 other (\<lambda>k. k\<lparr>right := Null\<rparr>) of
                Inl e \<Rightarrow> Inl e
              | Inr w4 \<Rightarrow>
             (case store w4 other (\<lambda>k. k\<lparr>left := Null\<rparr>) of
                Inl e \<Rightarrow> Inl e
              | Inr w5 \<Rightarrow> Inr (c, w5))))))))"

section \<open>Copy assignment and the one-value constructor\<close>

text \<open>
  \<^verbatim>\<open>bstree<T> & bstree<T>::operator=(const bstree<T> & _opr)
  { if(this != &_opr) { clear();
      if(!_opr.empty()) { _root() = new node_type(*_opr._root(), _header_ptr); } }
    return *this; }\<close>
\<close>

definition assign_copy ::
  "'a bst_node \<Rightarrow> 'a world \<Rightarrow> bstree \<Rightarrow> bstree \<Rightarrow> (error + 'a world \<times> bstree) option" where
  "assign_copy junk w t opr =
     (if self t \<noteq> self opr then
        (case clear_bs w t of
           None \<Rightarrow> None
         | Some (Inl e) \<Rightarrow> Some (Inl e)
         | Some (Inr (w1, t1)) \<Rightarrow>
             (case empty_bs w1 opr of
                Inl e \<Rightarrow> Some (Inl e)
              | Inr True \<Rightarrow> Some (Inr (w1, t1))
              | Inr False \<Rightarrow>
                  (case load w1 (header_ptr opr) of
                     Inl e \<Rightarrow> Some (Inl e)
                   | Inr oh \<Rightarrow>
                       (case node_copy junk w1 (father oh) (header_ptr t1) of
                          None \<Rightarrow> None
                        | Some (Inl e) \<Rightarrow> Some (Inl e)
                        | Some (Inr (c, w2)) \<Rightarrow>
                            (case store w2 (header_ptr t1) (\<lambda>n. n\<lparr>father := Ref c\<rparr>) of
                               Inl e \<Rightarrow> Some (Inl e)
                             | Inr w3 \<Rightarrow> Some (Inr (w3, t1)))))))
      else Some (Inr (w, t)))"

text \<open>
  \<^verbatim>\<open>explicit bstree(value_type & _val) : _header_ptr(nullptr), _size(1)
  { _root() = new node_type(_val, _header_ptr->_ptr);
    _left_most() = _header_ptr->right = _root(); }\<close>
  The constructor argument \<^verbatim>\<open>_header_ptr->_ptr\<close> names a member that \<^verbatim>\<open>bst_node\<close>
  does not have; the model reads the \<open>father\<close> member in its place, through the same
  dereference of \<^verbatim>\<open>_header_ptr\<close>. \<^verbatim>\<open>_root()\<close> is \<^verbatim>\<open>_header_ptr->father\<close> and
  \<^verbatim>\<open>_left_most()\<close> is \<^verbatim>\<open>_header_ptr->right\<close>.
\<close>

definition bstree_val :: "'a bst_node \<Rightarrow> addr \<Rightarrow> 'a world \<Rightarrow> 'a \<Rightarrow> error + 'a world \<times> bstree" where
  "bstree_val junk me w v =
     (let t = \<lparr>self = me, header_ptr = Null, size_f = 1\<rparr>
      in case load w (header_ptr t) of
           Inl e \<Rightarrow> Inl e
         | Inr h \<Rightarrow>
             (let (c, w1) = alloc w (node_leaf junk v (father h))
              in case store w1 (header_ptr t) (\<lambda>n. n\<lparr>father := Ref c\<rparr>) of
                   Inl e \<Rightarrow> Inl e
                 | Inr w2 \<Rightarrow>
                (case load w2 (header_ptr t) of
                   Inl e \<Rightarrow> Inl e
                 | Inr h2 \<Rightarrow>
                (case store w2 (header_ptr t) (\<lambda>n. n\<lparr>right := father h2\<rparr>) of
                   Inl e \<Rightarrow> Inl e
                 | Inr w3 \<Rightarrow>
                (case store w3 (header_ptr t) (\<lambda>n. n\<lparr>right := father h2\<rparr>) of
                   Inl e \<Rightarrow> Inl e
                 | Inr w4 \<Rightarrow> Inr (w4, t))))))"

section \<open>Trees in the store\<close>

text \<open>
  What it means for the nodes below a pointer to form a tree. The abstract tree carries
  at each position the address of the node and its element. \<open>shape nil w p f T\<close>: the
  pointer \<open>p\<close> leads to the tree \<open>T\<close>, whose root has \<open>f\<close> as its \<open>father\<close>; a
  missing child is the pointer value \<open>nil\<close> (\<open>Null\<close> in a well-formed tree).
\<close>

fun shape :: "ptr \<Rightarrow> 'a world \<Rightarrow> ptr \<Rightarrow> ptr \<Rightarrow> (addr \<times> 'a) tree \<Rightarrow> bool" where
  "shape nil w p f Leaf = (p = nil)"
| "shape nil w p f (Node l (a, x) r) =
     (p = Ref a \<and>
      (case cells w a of
         None \<Rightarrow> False
       | Some n \<Rightarrow>
           data n = Some x \<and> father n = f \<and>
           shape nil w (left n) (Ref a) l \<and> shape nil w (right n) (Ref a) r))"

text \<open>The addresses and the elements of a tree; \<open>separate\<close>: no node occurs twice.\<close>

definition addrs :: "(addr \<times> 'a) tree \<Rightarrow> addr set" where
  "addrs T = fst ` set_tree T"

definition elems :: "(addr \<times> 'a) tree \<Rightarrow> 'a tree" where
  "elems T = map_tree snd T"

definition separate :: "(addr \<times> 'a) tree \<Rightarrow> bool" where
  "separate T = distinct (map fst (inorder T))"

text \<open>
  The tree object \<open>t\<close> holds the tree \<open>T\<close>: its sentinel is alive and is no node of
  \<open>T\<close>, and the sentinel's \<open>father\<close> (\<^verbatim>\<open>_root()\<close>) is the sentinel itself when \<open>T\<close> is
  empty and leads to \<open>T\<close> otherwise.
\<close>

definition holds_tree :: "ptr \<Rightarrow> 'a world \<Rightarrow> bstree \<Rightarrow> (addr \<times> 'a) tree \<Rightarrow> bool" where
  "holds_tree nil w t T =
     (case header_ptr t of
        Ref h \<Rightarrow>
          (case cells w h of
             None \<Rightarrow> False
           | Some hn \<Rightarrow>
               h \<notin> addrs T \<and> separate T \<and>
               (if T = Leaf then father hn = Ref h else shape nil w (father hn) (Ref h) T))
      | _ \<Rightarrow> False)"

text \<open>
  The tree after \<^verbatim>\<open>insert\<close> of \<open>v\<close> with the new node at address \<open>c\<close>, and the node
  the search loop of \<^verbatim>\<open>insert\<close> leaves in \<^verbatim>\<open>_prev\<close>.
\<close>

fun ins :: "addr \<Rightarrow> 'a::linorder \<Rightarrow> (addr \<times> 'a) tree \<Rightarrow> (addr \<times> 'a) tree" where
  "ins c v Leaf = Node Leaf (c, v) Leaf"
| "ins c v (Node l (a, x) r) =
     (if v = x then Node l (a, x) r
      else if v < x then Node (ins c v l) (a, x) r
      else Node l (a, x) (ins c v r))"

fun path_end :: "'a::linorder \<Rightarrow> (addr \<times> 'a) tree \<Rightarrow> ptr \<Rightarrow> ptr" where
  "path_end v Leaf prev = prev"
| "path_end v (Node l (a, x) r) prev = path_end v (if v < x then l else r) (Ref a)"

text \<open>
  The invariant of a tree built by \<^verbatim>\<open>insert\<close> in storage whose unwritten pointers read
  as null: it holds a search tree, every address in use is below the next fresh one, and
  the sentinel's \<open>left\<close> and \<open>right\<close> point to nodes of the tree.
\<close>

definition sound :: "'a::linorder world \<Rightarrow> bstree \<Rightarrow> (addr \<times> 'a) tree \<Rightarrow> bool" where
  "sound w t T =
     (\<exists>h hn. header_ptr t = Ref h \<and> cells w h = Some hn \<and> h \<notin> addrs T \<and> separate T \<and>
        bst (elems T) \<and> h < next_addr w \<and> (\<forall>a\<in>addrs T. a < next_addr w) \<and>
        (if T = Leaf then father hn = Ref h
         else shape Null w (father hn) (Ref h) T \<and>
              (\<exists>m\<in>addrs T. left hn = Ref m) \<and> (\<exists>m\<in>addrs T. right hn = Ref m)))"

text \<open>
  A tree of one node whose child pointers were never written: what the first
  \<^verbatim>\<open>insert\<close> leaves when unwritten members are indeterminate.
\<close>

definition lone :: "'a world \<Rightarrow> bstree \<Rightarrow> addr \<Rightarrow> 'a \<Rightarrow> bool" where
  "lone w t a x =
     (case header_ptr t of
        Ref h \<Rightarrow>
          (case (cells w h, cells w a) of
             (Some hn, Some n) \<Rightarrow>
               a \<noteq> h \<and> father hn = Ref a \<and> data n = Some x \<and> father n = Ref h \<and>
               left n = Indet \<and> right n = Indet
           | _ \<Rightarrow> False)
      | _ \<Rightarrow> False)"

text \<open>The store after the nodes at the addresses \<open>A\<close> were deleted.\<close>

definition release :: "'a world \<Rightarrow> addr set \<Rightarrow> 'a world" where
  "release w A = w\<lparr>cells := (\<lambda>a. if a \<in> A then None else cells w a)\<rparr>"

text \<open>Where \<^verbatim>\<open>find\<close> ends in a tree: at the node holding \<open>v\<close>, or at a null pointer.\<close>

fun locate :: "'a::linorder \<Rightarrow> (addr \<times> 'a) tree \<Rightarrow> ptr" where
  "locate v Leaf = Null"
| "locate v (Node l (a, x) r) =
     (if v = x then Ref a else if v < x then locate v l else locate v r)"

section \<open>Insertion keeps the tree\<close>

lemma addrs_simps [simp]:
  "addrs Leaf = {}"
  "addrs (Node l (a, x) r) = insert a (addrs l \<union> addrs r)"
  by (auto simp: addrs_def)

lemma elems_simps [simp]:
  "elems Leaf = Leaf"
  "elems (Node l (a, x) r) = Node (elems l) x (elems r)"
  by (simp_all add: elems_def)

lemma separate_simps [simp]:
  "separate Leaf"
  "separate (Node l (a, x) r) =
     (separate l \<and> separate r \<and> a \<notin> addrs l \<and> a \<notin> addrs r \<and> addrs l \<inter> addrs r = {})"
  by (auto simp: separate_def addrs_def)

lemma shape_frame:
  "shape nil w p f T \<Longrightarrow> (\<And>a. a \<in> addrs T \<Longrightarrow> cells w' a = cells w a) \<Longrightarrow> shape nil w' p f T"
proof (induction T arbitrary: p f)
  case Leaf
  then show ?case by simp
next
  case (Node l ax r)
  obtain a x where ax: "ax = (a, x)" by (cases ax)
  from Node.prems(1) obtain n where n: "p = Ref a" "cells w a = Some n" "data n = Some x"
    "father n = f" "shape nil w (left n) (Ref a) l" "shape nil w (right n) (Ref a) r"
    by (auto simp: ax split: option.splits)
  have c: "cells w' a = Some n" using Node.prems(2)[of a] n by (simp add: ax)
  have "shape nil w' (left n) (Ref a) l" using Node.IH(1)[OF n(5)] Node.prems(2) by (simp add: ax)
  moreover have "shape nil w' (right n) (Ref a) r" using Node.IH(2)[OF n(6)] Node.prems(2) by (simp add: ax)
  ultimately show ?case using n c by (simp add: ax)
qed

lemma shape_alive:
  "shape nil w p f T \<Longrightarrow> a \<in> addrs T \<Longrightarrow>
   \<exists>n. cells w a = Some n \<and>
       (left n = nil \<or> (\<exists>b\<in>addrs T. left n = Ref b)) \<and>
       (right n = nil \<or> (\<exists>b\<in>addrs T. right n = Ref b))"
proof (induction T arbitrary: p f)
  case Leaf
  then show ?case by simp
next
  case (Node l bx r)
  obtain b x where bx: "bx = (b, x)" by (cases bx)
  from Node.prems(1) obtain n where n: "p = Ref b" "cells w b = Some n"
    "shape nil w (left n) (Ref b) l" "shape nil w (right n) (Ref b) r"
    by (auto simp: bx split: option.splits)
  have child: "\<And>q g S. shape nil w q g S \<Longrightarrow> q = nil \<or> (\<exists>c\<in>addrs S. q = Ref c)"
    subgoal for q g S by (cases S) auto
    done
  consider "a = b" | "a \<in> addrs l" | "a \<in> addrs r" using Node.prems(2) by (auto simp: bx)
  then show ?case
  proof cases
    case 1
    then show ?thesis using n child[OF n(3)] child[OF n(4)] by (auto simp: bx)
  next
    case 2
    from Node.IH(1)[OF n(3) 2] show ?thesis by (auto simp: bx)
  next
    case 3
    from Node.IH(2)[OF n(4) 3] show ?thesis by (auto simp: bx)
  qed
qed

lemma addrs_ins: "addrs (ins c v T) \<subseteq> insert c (addrs T)"
  by (induction T) (auto split: if_splits)

lemma addrs_ins_sup: "addrs T \<subseteq> addrs (ins c v T)"
  by (induction T) auto

lemma separate_ins: "separate T \<Longrightarrow> c \<notin> addrs T \<Longrightarrow> separate (ins c v T)"
proof (induction T)
  case Leaf
  then show ?case by simp
next
  case (Node l ax r)
  obtain a x where ax: "ax = (a, x)" by (cases ax)
  show ?case using Node addrs_ins[of c v l] addrs_ins[of c v r] by (auto simp: ax)
qed

lemma set_elems_ins: "set_tree (elems (ins c v T)) = insert v (set_tree (elems T))"
  by (induction T) (auto split: if_splits)

lemma bst_ins: "bst (elems T) \<Longrightarrow> bst (elems (ins c v T))"
  by (induction T) (auto simp: set_elems_ins split: if_splits)

lemma ins_not_Leaf [simp]: "ins c v T \<noteq> Leaf"
  by (cases T) (auto split: if_splits)

lemma search_shape:
  "shape Null w p f T \<Longrightarrow> bst (elems T) \<Longrightarrow>
   insert_search w v p prev =
     Some (Inr (if v \<in> set_tree (elems T) then None else Some (path_end v T prev)))"
proof (induction T arbitrary: p f prev)
  case Leaf
  then show ?case by (simp add: insert_search.simps)
next
  case (Node l ax r)
  obtain a x where ax: "ax = (a, x)" by (cases ax)
  from Node.prems(1) obtain n where n: "p = Ref a" "cells w a = Some n" "data n = Some x"
    "shape Null w (left n) (Ref a) l" "shape Null w (right n) (Ref a) r"
    by (auto simp: ax split: option.splits)
  from Node.prems(2) have b: "bst (elems l)" "bst (elems r)"
    "\<forall>y\<in>set_tree (elems l). y < x" "\<forall>y\<in>set_tree (elems r). x < y"
    by (auto simp: ax)
  show ?case
  proof (cases "v = x")
    case True
    then show ?thesis using n by (subst insert_search.simps) (simp add: ax)
  next
    case False
    show ?thesis
    proof (cases "v < x")
      case True
      have "v \<notin> set_tree (elems r)" using b(4) True by auto
      then show ?thesis using n False True Node.IH(1)[OF n(4) b(1), of p]
        by (subst insert_search.simps) (auto simp: ax)
    next
      case ge: False
      have "v \<notin> set_tree (elems l)" using b(3) ge False by auto
      then show ?thesis using n False ge Node.IH(2)[OF n(5) b(2), of p]
        by (subst insert_search.simps) (auto simp: ax)
    qed
  qed
qed

lemma path_end_in:
  "T \<noteq> Leaf \<Longrightarrow> \<exists>a\<in>addrs T. path_end v T prev = Ref a"
proof (induction T arbitrary: prev)
  case Leaf
  then show ?case by simp
next
  case (Node l ax r)
  obtain a x where ax: "ax = (a, x)" by (cases ax)
  show ?case
  proof (cases "v < x")
    case True
    show ?thesis
    proof (cases "l = Leaf")
      case True
      then show ?thesis using \<open>v < x\<close> by (simp add: ax)
    next
      case False
      from Node.IH(1)[OF False, of "Ref a"] show ?thesis using True by (auto simp: ax)
    qed
  next
    case False
    show ?thesis
    proof (cases "r = Leaf")
      case True
      then show ?thesis using False by (simp add: ax)
    next
      case nl: False
      from Node.IH(2)[OF nl, of "Ref a"] show ?thesis using False by (auto simp: ax)
    qed
  qed
qed

lemma attach_leaf:
  assumes n: "cells w a = Some n" "data n = Some x" and fresh: "a \<noteq> next_addr w"
  shows "insert_attach junk v w (Ref a) =
           Inr (w\<lparr>cells := (cells w)(next_addr w := Some (node_leaf junk v (Ref a)),
                                      a := Some (if v < x then n\<lparr>left := Ref (next_addr w)\<rparr>
                                                 else n\<lparr>right := Ref (next_addr w)\<rparr>)),
                  next_addr := Suc (next_addr w)\<rparr>)"
  using n fresh by (auto simp: insert_attach_def load_def rd_def alloc_def store_def)

lemma attach_shape:
  assumes "shape Null w p f T" "T \<noteq> Leaf" "separate T" "v \<notin> set_tree (elems T)"
    and "next_addr w \<notin> addrs T" "left junk = Null" "right junk = Null"
  shows "\<exists>w'. insert_attach junk v w (path_end v T prev) = Inr w' \<and>
              shape Null w' p f (ins (next_addr w) v T) \<and>
              next_addr w' = Suc (next_addr w) \<and>
              (\<forall>b. b \<notin> addrs T \<longrightarrow> b \<noteq> next_addr w \<longrightarrow> cells w' b = cells w b)"
  using assms
proof (induction T arbitrary: p f prev)
  case Leaf
  then show ?case by simp
next
  case (Node l ax r)
  obtain a x where ax: "ax = (a, x)" by (cases ax)
  let ?c = "next_addr w"
  from Node.prems(1) obtain n where n: "p = Ref a" "cells w a = Some n" "data n = Some x"
    "father n = f" "shape Null w (left n) (Ref a) l" "shape Null w (right n) (Ref a) r"
    by (auto simp: ax split: option.splits)
  from Node.prems(3) have sep: "separate l" "separate r" "a \<notin> addrs l" "a \<notin> addrs r"
    "addrs l \<inter> addrs r = {}" by (auto simp: ax)
  from Node.prems(4) have vx: "v \<noteq> x" "v \<notin> set_tree (elems l)" "v \<notin> set_tree (elems r)"
    by (auto simp: ax)
  from Node.prems(5) have fr: "a \<noteq> ?c" "?c \<notin> addrs l" "?c \<notin> addrs r" by (auto simp: ax)
  note jk = Node.prems(6,7)
  show ?case
  proof (cases "v < x")
    case True
    show ?thesis
    proof (cases "l = Leaf")
      case lf: True
      define w' where "w' = w\<lparr>cells := (cells w)(?c := Some (node_leaf junk v (Ref a)),
                                      a := Some (n\<lparr>left := Ref ?c\<rparr>)),
                  next_addr := Suc ?c\<rparr>"
      have att: "insert_attach junk v w (Ref a) = Inr w'"
        using attach_leaf[OF n(2,3) fr(1), of junk v] True by (simp add: w'_def)
      have "shape Null w' (right n) (Ref a) r"
        by (rule shape_frame[OF n(6)]) (use sep fr in \<open>auto simp: w'_def\<close>)
      then have "shape Null w' p f (ins ?c v (Node l ax r))"
        using n True vx lf fr jk by (auto simp: ax w'_def node_leaf_def)
      moreover have "path_end v (Node l ax r) prev = Ref a" using True lf by (simp add: ax)
      ultimately show ?thesis using att by (auto simp: w'_def ax)
    next
      case nl: False
      from Node.IH(1)[OF n(5) nl sep(1) vx(2) fr(2) jk, of "Ref a"]
      obtain w' where w': "insert_attach junk v w (path_end v l (Ref a)) = Inr w'"
        "shape Null w' (left n) (Ref a) (ins ?c v l)" "next_addr w' = Suc ?c"
        "\<forall>b. b \<notin> addrs l \<longrightarrow> b \<noteq> ?c \<longrightarrow> cells w' b = cells w b" by blast
      have ca: "cells w' a = Some n" using w'(4) sep(3) fr(1) n(2) by simp
      have "shape Null w' (right n) (Ref a) r"
        by (rule shape_frame[OF n(6)]) (use w'(4) sep fr in auto)
      then have "shape Null w' p f (ins ?c v (Node l ax r))"
        using n True vx ca w'(2) by (auto simp: ax)
      moreover have "path_end v (Node l ax r) prev = path_end v l (Ref a)" using True by (simp add: ax)
      ultimately show ?thesis using w' by (auto simp: ax)
    qed
  next
    case False
    show ?thesis
    proof (cases "r = Leaf")
      case lf: True
      define w' where "w' = w\<lparr>cells := (cells w)(?c := Some (node_leaf junk v (Ref a)),
                                      a := Some (n\<lparr>right := Ref ?c\<rparr>)),
                  next_addr := Suc ?c\<rparr>"
      have att: "insert_attach junk v w (Ref a) = Inr w'"
        using attach_leaf[OF n(2,3) fr(1), of junk v] False by (simp add: w'_def)
      have "shape Null w' (left n) (Ref a) l"
        by (rule shape_frame[OF n(5)]) (use sep fr in \<open>auto simp: w'_def\<close>)
      then have "shape Null w' p f (ins ?c v (Node l ax r))"
        using n False vx lf fr jk by (auto simp: ax w'_def node_leaf_def)
      moreover have "path_end v (Node l ax r) prev = Ref a" using False lf by (simp add: ax)
      ultimately show ?thesis using att by (auto simp: w'_def ax)
    next
      case nl: False
      from Node.IH(2)[OF n(6) nl sep(2) vx(3) fr(3) jk, of "Ref a"]
      obtain w' where w': "insert_attach junk v w (path_end v r (Ref a)) = Inr w'"
        "shape Null w' (right n) (Ref a) (ins ?c v r)" "next_addr w' = Suc ?c"
        "\<forall>b. b \<notin> addrs r \<longrightarrow> b \<noteq> ?c \<longrightarrow> cells w' b = cells w b" by blast
      have ca: "cells w' a = Some n" using w'(4) sep(4) fr(1) n(2) by simp
      have "shape Null w' (left n) (Ref a) l"
        by (rule shape_frame[OF n(5)]) (use w'(4) sep fr in auto)
      then have "shape Null w' p f (ins ?c v (Node l ax r))"
        using n False vx ca w'(2) by (auto simp: ax)
      moreover have "path_end v (Node l ax r) prev = path_end v r (Ref a)" using False by (simp add: ax)
      ultimately show ?thesis using w' by (auto simp: ax)
    qed
  qed
qed

lemma sound_holds: "sound w t T \<Longrightarrow> holds_tree Null w t T"
  by (auto simp: sound_def holds_tree_def)

lemma ins_present: "bst (elems T) \<Longrightarrow> v \<in> set_tree (elems T) \<Longrightarrow> ins c v T = T"
  by (induction T) (fastforce split: if_splits)+

lemma adjust_left_ok:
  assumes "header_ptr t = Ref h" "cells w h = Some hn" "left hn = Ref m" "m \<in> addrs T"
    "shape Null w p f T" "h \<notin> addrs T"
  shows "\<exists>w' hn'. adjust_left w t = Inr w' \<and> next_addr w' = next_addr w \<and>
           (\<forall>b. b \<noteq> h \<longrightarrow> cells w' b = cells w b) \<and> cells w' h = Some hn' \<and>
           father hn' = father hn \<and> right hn' = right hn \<and> (\<exists>m'\<in>addrs T. left hn' = Ref m')"
proof -
  from shape_alive[OF assms(5,4)] obtain n where n: "cells w m = Some n"
    "left n = Null \<or> (\<exists>b\<in>addrs T. left n = Ref b)" by blast
  from n(2) show ?thesis
  proof
    assume "left n = Null"
    then show ?thesis using assms n(1) by (auto simp: adjust_left_def load_def)
  next
    assume "\<exists>b\<in>addrs T. left n = Ref b"
    then obtain b where "b \<in> addrs T" "left n = Ref b" by blast
    then show ?thesis using assms n(1) by (auto simp: adjust_left_def load_def store_def)
  qed
qed

lemma adjust_right_ok:
  assumes "header_ptr t = Ref h" "cells w h = Some hn" "right hn = Ref m" "m \<in> addrs T"
    "shape Null w p f T" "h \<notin> addrs T"
  shows "\<exists>w' hn'. adjust_right w t = Inr w' \<and> next_addr w' = next_addr w \<and>
           (\<forall>b. b \<noteq> h \<longrightarrow> cells w' b = cells w b) \<and> cells w' h = Some hn' \<and>
           father hn' = father hn \<and> left hn' = left hn \<and> (\<exists>m'\<in>addrs T. right hn' = Ref m')"
proof -
  from shape_alive[OF assms(5,4)] obtain n where n: "cells w m = Some n"
    "right n = Null \<or> (\<exists>b\<in>addrs T. right n = Ref b)" by blast
  from n(2) show ?thesis
  proof
    assume "right n = Null"
    then show ?thesis using assms n(1) by (auto simp: adjust_right_def load_def)
  next
    assume "\<exists>b\<in>addrs T. right n = Ref b"
    then obtain b where "b \<in> addrs T" "right n = Ref b" by blast
    then show ?thesis using assms n(1) by (auto simp: adjust_right_def load_def store_def)
  qed
qed

lemma insert_first_sound:
  assumes "sound w t Leaf" "left junk = Null" "right junk = Null"
  shows "\<exists>w'. insert_bs junk v w t = Some (Inr (w', t)) \<and> sound w' t (ins (next_addr w) v Leaf)"
proof -
  from assms(1) obtain h hn where h: "header_ptr t = Ref h" "cells w h = Some hn"
    "h < next_addr w" "father hn = Ref h" by (auto simp: sound_def)
  have e: "empty_bs w t = Inr True" using h by (simp add: empty_bs_def load_def)
  show ?thesis using h assms(2,3)
    by (auto simp: insert_bs_def e insert_first_def alloc_def store_def load_def sound_def
        node_leaf_def)
qed

lemma insert_more_sound:
  assumes s: "sound w t T" and nl: "T \<noteq> Leaf" and jk: "left junk = Null" "right junk = Null"
  shows "\<exists>w'. insert_bs junk v w t = Some (Inr (w', t)) \<and> sound w' t (ins (next_addr w) v T)"
proof -
  let ?c = "next_addr w"
  from s nl obtain h hn where h: "header_ptr t = Ref h" "cells w h = Some hn" "h \<notin> addrs T"
    "separate T" "bst (elems T)" "h < ?c" "\<forall>a\<in>addrs T. a < ?c"
    "shape Null w (father hn) (Ref h) T" "\<exists>m\<in>addrs T. left hn = Ref m" "\<exists>m\<in>addrs T. right hn = Ref m"
    by (auto simp: sound_def)
  obtain l a x r where T: "T = Node l (a, x) r" using nl by (cases T) auto
  have root: "father hn = Ref a" "a \<noteq> h" using h(8) h(3) by (auto simp: T)
  have e: "empty_bs w t = Inr False" using h(1,2) root by (simp add: empty_bs_def load_def)
  have ld: "load w (header_ptr t) = Inr hn" using h(1,2) by (simp add: load_def)
  note srch = search_shape[OF h(8) h(5), of v "father hn"]
  show ?thesis
  proof (cases "v \<in> set_tree (elems T)")
    case True
    then show ?thesis using s ins_present[OF h(5) True] srch
      by (simp add: insert_bs_def e ld)
  next
    case False
    have fresh: "?c \<notin> addrs T" using h(7) by auto
    from attach_shape[OF h(8) nl h(4) False fresh jk, of "father hn"]
    obtain w1 where w1: "insert_attach junk v w (path_end v T (father hn)) = Inr w1"
      "shape Null w1 (father hn) (Ref h) (ins ?c v T)" "next_addr w1 = Suc ?c"
      "\<forall>b. b \<notin> addrs T \<longrightarrow> b \<noteq> ?c \<longrightarrow> cells w1 b = cells w b" by blast
    let ?T' = "ins ?c v T"
    have sub: "addrs T \<subseteq> addrs ?T'" "addrs ?T' \<subseteq> insert ?c (addrs T)"
      using addrs_ins_sup[of T ?c v] addrs_ins[of ?c v T] by auto
    have hT': "h \<notin> addrs ?T'" using sub(2) h(3,6) by auto
    have c1: "cells w1 h = Some hn" using w1(4) h(2,3,6) by simp
    from h(9) obtain m where m: "m \<in> addrs ?T'" "left hn = Ref m" using sub(1) by auto
    from adjust_left_ok[OF h(1) c1 m(2) m(1) w1(2) hT']
    obtain w2 hn2 where w2: "adjust_left w1 t = Inr w2" "next_addr w2 = next_addr w1"
      "\<forall>b. b \<noteq> h \<longrightarrow> cells w2 b = cells w1 b" "cells w2 h = Some hn2"
      "father hn2 = father hn" "right hn2 = right hn" "\<exists>m'\<in>addrs ?T'. left hn2 = Ref m'"
      by blast
    have sh2: "shape Null w2 (father hn) (Ref h) ?T'"
      by (rule shape_frame[OF w1(2)]) (use w2(3) hT' in auto)
    from h(10) obtain k where k: "k \<in> addrs ?T'" "right hn2 = Ref k" using sub(1) w2(6) by auto
    from adjust_right_ok[OF h(1) w2(4) k(2) k(1) sh2 hT']
    obtain w3 hn3 where w3: "adjust_right w2 t = Inr w3" "next_addr w3 = next_addr w2"
      "\<forall>b. b \<noteq> h \<longrightarrow> cells w3 b = cells w2 b" "cells w3 h = Some hn3"
      "father hn3 = father hn2" "left hn3 = left hn2" "\<exists>m'\<in>addrs ?T'. right hn3 = Ref m'"
      by blast
    have sh3: "shape Null w3 (father hn3) (Ref h) ?T'"
      unfolding w3(5) w2(5) by (rule shape_frame[OF sh2]) (use w3(3) hT' in auto)
    have run: "insert_bs junk v w t = Some (Inr (w3, t))"
      using srch False w1(1) w2(1) w3(1) by (simp add: insert_bs_def e ld)
    have "sound w3 t ?T'"
      unfolding sound_def
      using h(1) w3(4) hT' separate_ins[OF h(4) fresh] bst_ins[OF h(5)] sh3 w2(7) w3(6,7)
        h(6,7) sub(2) w3(2) w2(2) w1(3)
      by (intro exI[of _ h] exI[of _ hn3]) (auto simp: less_Suc_eq)
    then show ?thesis using run by blast
  qed
qed

lemma insert_sound:
  assumes "sound w t T" "left junk = Null" "right junk = Null"
  shows "\<exists>w'. insert_bs junk v w t = Some (Inr (w', t)) \<and> sound w' t (ins (next_addr w) v T)"
  using assms insert_first_sound insert_more_sound by (cases "T = Leaf") blast+

lemma inserts_sound:
  assumes "sound w t T" "left junk = Null" "right junk = Null"
  shows "\<exists>w' T'. inserts junk vs w t = Some (Inr (w', t)) \<and> sound w' t T' \<and>
           set_tree (elems T') = set_tree (elems T) \<union> set vs"
  using assms(1)
proof (induction vs arbitrary: w T)
  case Nil
  then show ?case by auto
next
  case (Cons v vs)
  from insert_sound[OF Cons.prems assms(2,3), of v]
  obtain w1 where w1: "insert_bs junk v w t = Some (Inr (w1, t))"
    "sound w1 t (ins (next_addr w) v T)" by blast
  from Cons.IH[OF w1(2)] obtain w' T' where "inserts junk vs w1 t = Some (Inr (w', t))"
    "sound w' t T'" "set_tree (elems T') = set_tree (elems (ins (next_addr w) v T)) \<union> set vs"
    by blast
  then show ?case using w1(1) by (auto simp: set_elems_ins)
qed

lemma new_sound:
  "\<exists>w t. bstree_new junk me world0 = Inr (w, t) \<and> sound w t Leaf"
  by (auto simp: bstree_new_def alloc_def store_def world0_def sound_def Let_def)

lemma lone_holds: "lone w t a x \<Longrightarrow> holds_tree Indet w t (Node Leaf (a, x) Leaf)"
  by (auto simp: lone_def holds_tree_def split: ptr.splits option.splits)

lemma insert_lone:
  assumes "lone w t a x"
  shows "insert_bs junk v w t = (if v = x then Some (Inr (w, t)) else Some (Inl UninitRead))"
proof -
  from assms obtain h hn n where h: "header_ptr t = Ref h" "cells w h = Some hn" "cells w a = Some n"
    "a \<noteq> h" "father hn = Ref a" "data n = Some x" "left n = Indet" "right n = Indet"
    by (auto simp: lone_def split: ptr.splits option.splits)
  have e: "empty_bs w t = Inr False" using h by (simp add: empty_bs_def load_def)
  have ld: "load w (Ref h) = Inr hn" using h by (simp add: load_def)
  have "insert_search w v (Ref a) (Ref a) = (if v = x then Some (Inr None) else Some (Inl UninitRead))"
    using h by (subst insert_search.simps) (simp add: insert_search.simps)
  then show ?thesis using h by (simp add: insert_bs_def e ld)
qed

lemma inserts_lone:
  assumes "lone w t a x"
  shows "inserts junk vs w t = (if set vs \<subseteq> {x} then Some (Inr (w, t)) else Some (Inl UninitRead))"
  using assms by (induction vs) (auto simp: insert_lone)

lemma first_lone:
  assumes "bstree_new junk me world0 = Inr (w, t)" "left junk = Indet" "right junk = Indet"
  shows "\<exists>w'. insert_bs junk v w t = Some (Inr (w', t)) \<and> lone w' t 1 v"
  using assms
  by (auto simp: bstree_new_def alloc_def store_def world0_def Let_def insert_bs_def empty_bs_def
      load_def insert_first_def node_leaf_def node_default_def lone_def)

lemma new_holds: "bstree_new junk me world0 = Inr (w, t) \<Longrightarrow> holds_tree nil w t Leaf"
  by (auto simp: bstree_new_def alloc_def store_def world0_def Let_def holds_tree_def)

lemma new_total: "\<exists>w t. bstree_new junk me world0 = Inr (w, t)"
  by (auto simp: bstree_new_def alloc_def store_def world0_def Let_def)

lemma bst_distinct: "bst T \<Longrightarrow> distinct (inorder T)"
  by (simp add: bst_iff_sorted_wrt_less strict_sorted_iff)

section \<open>Deleting a tree\<close>

lemma release_simps [simp]:
  "cells (release w A) a = (if a \<in> A then None else cells w a)"
  "next_addr (release w A) = next_addr w"
  by (simp_all add: release_def)

lemma release_free:
  "(release w A)\<lparr>cells := (cells (release w A))(a := None)\<rparr> = release w (insert a A)"
  by (auto simp: release_def fun_eq_iff)

lemma release_union: "release (release w A) B = release w (A \<union> B)"
  by (auto simp: release_def fun_eq_iff)

lemma release_empty [simp]: "release w {} = w"
  by (simp add: release_def)

lemma delete_shape:
  "shape Null w p f T \<Longrightarrow> separate T \<Longrightarrow> node_delete w p = Some (Inr (release w (addrs T)))"
proof (induction T arbitrary: w p f)
  case Leaf
  then show ?case by (simp add: node_delete.simps)
next
  case (Node l ax r)
  obtain a x where ax: "ax = (a, x)" by (cases ax)
  from Node.prems(1) obtain n where n: "p = Ref a" "cells w a = Some n"
    "shape Null w (left n) (Ref a) l" "shape Null w (right n) (Ref a) r"
    by (auto simp: ax split: option.splits)
  from Node.prems(2) have sep: "separate l" "separate r" "a \<notin> addrs l" "a \<notin> addrs r"
    "addrs l \<inter> addrs r = {}" by (auto simp: ax)
  let ?w1 = "release w (addrs l)"
  have d1: "node_delete w (left n) = Some (Inr ?w1)" by (rule Node.IH(1)[OF n(3) sep(1)])
  have c1: "cells ?w1 a = Some n" using sep(3) n(2) by simp
  have "shape Null ?w1 (right n) (Ref a) r"
    by (rule shape_frame[OF n(4)]) (use sep(5) in auto)
  from Node.IH(2)[OF this sep(2)]
  have d2: "node_delete ?w1 (right n) = Some (Inr (release w (addrs l \<union> addrs r)))"
    by (simp add: release_union)
  have c2: "cells (release w (addrs l \<union> addrs r)) a = Some n" using sep(3,4) n(2) by simp
  show ?case
    by (subst node_delete.simps) (simp add: n(1,2) d1 c1 d2 c2 release_free ax sep(3,4))
qed

text \<open>A tree whose node has child pointers that were never written cannot be cleared:
  the destructor reads them.\<close>

lemma clear_lone: "lone w t a x \<Longrightarrow> clear_bs w t = Some (Inl UninitRead)"
proof -
  assume "lone w t a x"
  then obtain h hn n where h: "header_ptr t = Ref h" "cells w h = Some hn" "cells w a = Some n"
    "a \<noteq> h" "father hn = Ref a" "left n = Indet"
    by (auto simp: lone_def split: ptr.splits option.splits)
  have e: "empty_bs w t = Inr False" using h by (simp add: empty_bs_def load_def)
  have "node_delete w (Ref a) = Some (Inl UninitRead)"
    using h by (subst node_delete.simps) (simp add: node_delete.simps)
  then show ?thesis using h by (simp add: clear_bs_def e load_def)
qed

section \<open>Copying a tree\<close>

lemma shape_child: "shape nil w q g S \<Longrightarrow> q = nil \<or> (\<exists>c\<in>addrs S. q = Ref c)"
  by (cases S) auto

lemma copy_shape:
  assumes "shape Null w p f T" "T \<noteq> Leaf" "\<forall>a\<in>addrs T. a < next_addr w"
    and "left junk = nil" "right junk = nil"
  shows "\<exists>w' T'. node_copy junk w p pf = Some (Inr (next_addr w, w')) \<and>
           shape nil w' (Ref (next_addr w)) pf T' \<and> elems T' = elems T \<and>
           addrs T' \<subseteq> {next_addr w ..< next_addr w'} \<and>
           next_addr w < next_addr w' \<and>
           (\<forall>b<next_addr w. cells w' b = cells w b)"
  using assms(1,2,3)
proof (induction T arbitrary: w p f pf)
  case Leaf
  then show ?case by simp
next
  case (Node l ax r)
  obtain a x where ax: "ax = (a, x)" by (cases ax)
  let ?c = "next_addr w"
  from Node.prems(1) obtain n where n: "p = Ref a" "cells w a = Some n" "data n = Some x"
    "shape Null w (left n) (Ref a) l" "shape Null w (right n) (Ref a) r"
    by (auto simp: ax split: option.splits)
  from Node.prems(3) have lt: "a < ?c" "\<forall>b\<in>addrs l. b < ?c" "\<forall>b\<in>addrs r. b < ?c"
    by (auto simp: ax)
  define cn0 where "cn0 = junk\<lparr>data := Some x, father := pf\<rparr>"
  define w1 where "w1 = w\<lparr>cells := (cells w)(?c := Some cn0), next_addr := Suc ?c\<rparr>"
  have al: "alloc w cn0 = (?c, w1)" by (simp add: alloc_def w1_def)
  have ld0: "load w (Ref a) = Inr n" using n(2) by (simp add: load_def)
  have w1c: "cells w1 ?c = Some cn0" "next_addr w1 = Suc ?c" "\<forall>b<?c. cells w1 b = cells w b"
    by (simp_all add: w1_def)
  have ld1: "load w1 (Ref a) = Inr n" using n(2) lt(1) by (simp add: load_def w1_def)
  \<comment> \<open>the left part\<close>
  have left_part: "\<exists>w3 cn1 Tl.
      (case left n of
         Indet \<Rightarrow> Some (Inl UninitRead)
       | Null \<Rightarrow> Some (Inr w1)
       | Ref l \<Rightarrow>
           Option.bind (node_copy junk w1 (Ref l) (Ref ?c)) (\<lambda>r.
             case r of
               Inl e \<Rightarrow> Some (Inl e)
             | Inr (cl, w2) \<Rightarrow> Some (store w2 (Ref ?c) (\<lambda>n. n\<lparr>left := Ref cl\<rparr>)))) = Some (Inr w3) \<and>
      cells w3 ?c = Some cn1 \<and> data cn1 = Some x \<and> father cn1 = pf \<and> right cn1 = nil \<and>
      shape nil w3 (left cn1) (Ref ?c) Tl \<and> elems Tl = elems l \<and>
      addrs Tl \<subseteq> {Suc ?c ..< next_addr w3} \<and> Suc ?c \<le> next_addr w3 \<and>
      (\<forall>b<?c. cells w3 b = cells w b)"
  proof (cases "l = Leaf")
    case True
    then have "left n = Null" using n(4) by simp
    then show ?thesis using w1c assms(4,5) True
      by (intro exI[of _ w1] exI[of _ cn0] exI[of _ Leaf]) (simp add: cn0_def)
  next
    case False
    have s1: "shape Null w1 (left n) (Ref a) l"
      by (rule shape_frame[OF n(4)]) (use lt(2) w1c(3) in auto)
    have "\<forall>b\<in>addrs l. b < next_addr w1" using lt(2) w1c(2) by auto
    from Node.IH(1)[OF s1 False this, of "Ref ?c"]
    obtain w2 Tl where w2: "node_copy junk w1 (left n) (Ref ?c) = Some (Inr (Suc ?c, w2))"
      "shape nil w2 (Ref (Suc ?c)) (Ref ?c) Tl" "elems Tl = elems l"
      "addrs Tl \<subseteq> {Suc ?c ..< next_addr w2}" "Suc ?c < next_addr w2"
      "\<forall>b<Suc ?c. cells w2 b = cells w1 b"
      unfolding w1c(2) by blast
    obtain la where la: "left n = Ref la" using shape_child[OF n(4)] False n(4) by (cases l) auto
    have c2: "cells w2 ?c = Some cn0" using w2(6) w1c(1) by simp
    define w3 where "w3 = w2\<lparr>cells := (cells w2)(?c := Some (cn0\<lparr>left := Ref (Suc ?c)\<rparr>))\<rparr>"
    have st: "store w2 (Ref ?c) (\<lambda>n. n\<lparr>left := Ref (Suc ?c)\<rparr>) = Inr w3"
      using c2 by (simp add: store_def w3_def)
    have s3: "shape nil w3 (Ref (Suc ?c)) (Ref ?c) Tl"
      by (rule shape_frame[OF w2(2)]) (use w2(4) in \<open>auto simp: w3_def\<close>)
    show ?thesis using w2 la st s3 assms(5) w1c(3)
      by (intro exI[of _ w3] exI[of _ "cn0\<lparr>left := Ref (Suc ?c)\<rparr>"] exI[of _ Tl])
        (auto simp: w3_def cn0_def)
  qed
  then obtain w3 cn1 Tl where w3:
      "(case left n of
         Indet \<Rightarrow> Some (Inl UninitRead)
       | Null \<Rightarrow> Some (Inr w1)
       | Ref l \<Rightarrow>
           Option.bind (node_copy junk w1 (Ref l) (Ref ?c)) (\<lambda>r.
             case r of
               Inl e \<Rightarrow> Some (Inl e)
             | Inr (cl, w2) \<Rightarrow> Some (store w2 (Ref ?c) (\<lambda>n. n\<lparr>left := Ref cl\<rparr>)))) = Some (Inr w3)"
      "cells w3 ?c = Some cn1" "data cn1 = Some x" "father cn1 = pf" "right cn1 = nil"
      "shape nil w3 (left cn1) (Ref ?c) Tl" "elems Tl = elems l"
      "addrs Tl \<subseteq> {Suc ?c ..< next_addr w3}" "Suc ?c \<le> next_addr w3"
      "\<forall>b<?c. cells w3 b = cells w b" by blast
  have ld3: "load w3 (Ref a) = Inr n" using n(2) lt(1) w3(10) by (simp add: load_def)
  \<comment> \<open>the right part\<close>
  have right_part: "\<exists>w5 cn2 Tr.
      (case right n of
         Indet \<Rightarrow> Some (Inl UninitRead)
       | Null \<Rightarrow> Some (Inr (?c, w3))
       | Ref r \<Rightarrow>
           Option.bind (node_copy junk w3 (Ref r) (Ref ?c)) (\<lambda>r2.
             case r2 of
               Inl e \<Rightarrow> Some (Inl e)
             | Inr (cr, w4) \<Rightarrow>
                 (case store w4 (Ref ?c) (\<lambda>n. n\<lparr>right := Ref cr\<rparr>) of
                    Inl e \<Rightarrow> Some (Inl e)
                  | Inr w5 \<Rightarrow> Some (Inr (?c, w5))))) = Some (Inr (?c, w5)) \<and>
      cells w5 ?c = Some cn2 \<and> data cn2 = Some x \<and> father cn2 = pf \<and> left cn2 = left cn1 \<and>
      shape nil w5 (right cn2) (Ref ?c) Tr \<and> elems Tr = elems r \<and>
      addrs Tr \<subseteq> {next_addr w3 ..< next_addr w5} \<and> next_addr w3 \<le> next_addr w5 \<and>
      (\<forall>b. b < next_addr w3 \<longrightarrow> b \<noteq> ?c \<longrightarrow> cells w5 b = cells w3 b)"
  proof (cases "r = Leaf")
    case True
    then have "right n = Null" using n(5) by simp
    then show ?thesis using w3 True
      by (intro exI[of _ w3] exI[of _ cn1] exI[of _ Leaf]) simp
  next
    case False
    have s3: "shape Null w3 (right n) (Ref a) r"
      by (rule shape_frame[OF n(5)]) (use lt(3) w3(10) in auto)
    have "\<forall>b\<in>addrs r. b < next_addr w3" using lt(3) w3(9) by auto
    from Node.IH(2)[OF s3 False this, of "Ref ?c"]
    obtain w4 Tr where w4: "node_copy junk w3 (right n) (Ref ?c) = Some (Inr (next_addr w3, w4))"
      "shape nil w4 (Ref (next_addr w3)) (Ref ?c) Tr" "elems Tr = elems r"
      "addrs Tr \<subseteq> {next_addr w3 ..< next_addr w4}" "next_addr w3 < next_addr w4"
      "\<forall>b<next_addr w3. cells w4 b = cells w3 b"
      by blast
    obtain ra where ra: "right n = Ref ra" using shape_child[OF n(5)] False n(5) by (cases r) auto
    have c4: "cells w4 ?c = Some cn1" using w4(6) w3(2,9) by simp
    define w5 where "w5 = w4\<lparr>cells := (cells w4)(?c := Some (cn1\<lparr>right := Ref (next_addr w3)\<rparr>))\<rparr>"
    have st: "store w4 (Ref ?c) (\<lambda>n. n\<lparr>right := Ref (next_addr w3)\<rparr>) = Inr w5"
      using c4 by (simp add: store_def w5_def)
    have s5: "shape nil w5 (Ref (next_addr w3)) (Ref ?c) Tr"
      by (rule shape_frame[OF w4(2)]) (use w4(4) w3(9) in \<open>auto simp: w5_def\<close>)
    show ?thesis using w4 ra st s5 w3(3,4)
      by (intro exI[of _ w5] exI[of _ "cn1\<lparr>right := Ref (next_addr w3)\<rparr>"] exI[of _ Tr])
        (auto simp: w5_def)
  qed
  then obtain w5 cn2 Tr where w5:
      "(case right n of
         Indet \<Rightarrow> Some (Inl UninitRead)
       | Null \<Rightarrow> Some (Inr (?c, w3))
       | Ref r \<Rightarrow>
           Option.bind (node_copy junk w3 (Ref r) (Ref ?c)) (\<lambda>r2.
             case r2 of
               Inl e \<Rightarrow> Some (Inl e)
             | Inr (cr, w4) \<Rightarrow>
                 (case store w4 (Ref ?c) (\<lambda>n. n\<lparr>right := Ref cr\<rparr>) of
                    Inl e \<Rightarrow> Some (Inl e)
                  | Inr w5 \<Rightarrow> Some (Inr (?c, w5))))) = Some (Inr (?c, w5))"
      "cells w5 ?c = Some cn2" "data cn2 = Some x" "father cn2 = pf" "left cn2 = left cn1"
      "shape nil w5 (right cn2) (Ref ?c) Tr" "elems Tr = elems r"
      "addrs Tr \<subseteq> {next_addr w3 ..< next_addr w5}" "next_addr w3 \<le> next_addr w5"
      "\<forall>b. b < next_addr w3 \<longrightarrow> b \<noteq> ?c \<longrightarrow> cells w5 b = cells w3 b" by blast
  have run: "node_copy junk w p pf = Some (Inr (?c, w5))"
    by (subst node_copy.simps)
      (simp add: n(1) ld0 rd_def n(3) al[unfolded cn0_def] ld1 w3(1) ld3 w5(1))
  have sl: "shape nil w5 (left cn2) (Ref ?c) Tl"
    unfolding w5(5) by (rule shape_frame[OF w3(6)]) (use w3(8) w5(10) in auto)
  have "shape nil w5 (Ref ?c) pf (Node Tl (?c, x) Tr)"
    using w5(2,3,4,6) sl by simp
  moreover have "elems (Node Tl (?c, x) Tr) = elems (Node l ax r)"
    using w3(7) w5(7) by (simp add: ax)
  moreover have "addrs (Node Tl (?c, x) Tr) \<subseteq> {?c ..< next_addr w5}"
    using w3(8,9) w5(8,9) by auto
  moreover have "?c < next_addr w5" using w3(9) w5(9) by simp
  moreover have "\<forall>b<?c. cells w5 b = cells w b" using w3(10,9) w5(10) by auto
  ultimately show ?case using run by blast
qed

lemma delete_indet:
  "shape Indet w p f T \<Longrightarrow> T \<noteq> Leaf \<Longrightarrow> node_delete w p = Some (Inl UninitRead)"
proof (induction T arbitrary: p f)
  case Leaf
  then show ?case by simp
next
  case (Node l ax r)
  obtain a x where ax: "ax = (a, x)" by (cases ax)
  from Node.prems(1) obtain n where n: "p = Ref a" "cells w a = Some n"
    "shape Indet w (left n) (Ref a) l"
    by (auto simp: ax split: option.splits)
  have "node_delete w (left n) = Some (Inl UninitRead)"
  proof (cases "l = Leaf")
    case True
    then show ?thesis using n(3) by (simp add: node_delete.simps)
  next
    case False
    then show ?thesis using Node.IH(1)[OF n(3)] by simp
  qed
  then show ?case using n by (subst node_delete.simps) simp
qed

lemma descend_indet:
  "shape Indet w p f T \<Longrightarrow> T \<noteq> Leaf \<Longrightarrow> descend_left w p = Some (Inl UninitRead)"
proof (induction T arbitrary: p f)
  case Leaf
  then show ?case by simp
next
  case (Node l ax r)
  obtain a x where ax: "ax = (a, x)" by (cases ax)
  from Node.prems(1) obtain n where n: "p = Ref a" "cells w a = Some n"
    "shape Indet w (left n) (Ref a) l"
    by (auto simp: ax split: option.splits)
  show ?case
  proof (cases "l = Leaf")
    case True
    then show ?thesis using n by (subst descend_left.simps) (simp add: load_def)
  next
    case False
    then obtain b where "left n = Ref b" using n(3) by (cases l) auto
    then show ?thesis using Node.IH(1)[OF n(3) False] n
      by (subst descend_left.simps) (simp add: load_def)
  qed
qed

lemma increment_indet:
  assumes "shape Indet w p f T" "T \<noteq> Leaf"
  shows "increment w p = Some (Inl UninitRead)"
proof -
  obtain l a x r where T: "T = Node l (a, x) r" using assms(2) by (cases T) auto
  from assms(1) obtain n where n: "p = Ref a" "cells w a = Some n"
    "shape Indet w (right n) (Ref a) r"
    by (auto simp: T split: option.splits)
  show ?thesis
  proof (cases "r = Leaf")
    case True
    then show ?thesis using n by (simp add: increment_def load_def)
  next
    case False
    then obtain b where "right n = Ref b" using n(3) by (cases r) auto
    then show ?thesis using descend_indet[OF n(3) False] n
      by (simp add: increment_def load_def)
  qed
qed

section \<open>find on the empty tree\<close>

lemma find_loop_self:
  assumes "cells w h = Some hn" "data hn = Some d" "d \<noteq> v" "left hn = Ref h" "right hn = Ref h"
  shows "find_loop w v (Ref h) = None"
proof (rule ccontr)
  assume "find_loop w v (Ref h) \<noteq> None"
  then obtain y where y: "find_loop w v (Ref h) = Some y" by auto
  have "\<not> (w = w \<and> v = v \<and> Ref h = Ref h)"
  proof (rule find_loop.raw_induct[where P = "\<lambda>w' v' p y'. \<not> (w' = w \<and> v' = v \<and> p = Ref h)", OF _ y])
    fix f w' v' p y'
    assume ih: "\<And>w'' v'' p' y''. f w'' v'' p' = Some y'' \<Longrightarrow> \<not> (w'' = w \<and> v'' = v \<and> p' = Ref h)"
      and step: "(case p of
          Null \<Rightarrow> Some (Inr Null)
        | Ref a \<Rightarrow>
            (case cells w' a of
               None \<Rightarrow> Some (Inl Dangling)
             | Some n \<Rightarrow>
                 (case data n of
                    None \<Rightarrow> Some (Inl UninitRead)
                  | Some d \<Rightarrow>
                      if v' = d then Some (Inr p)
                      else f w' v' (if v' < d then left n else right n)))
        | Indet \<Rightarrow> Some (Inl UninitRead)) = Some y'"
    show "\<not> (w' = w \<and> v' = v \<and> p = Ref h)"
    proof
      assume eq: "w' = w \<and> v' = v \<and> p = Ref h"
      with step assms have "f w v (Ref h) = Some y'" by (auto split: if_splits)
      from ih[OF this] show False by simp
    qed
  qed
  then show False by simp
qed

lemma find_empty_diverges:
  assumes "bstree_new junk me world0 = Inr (w, t)" "data junk = Some d" "d \<noteq> v"
  shows "find_bs w t v = None"
proof -
  from assms(1) have w: "header_ptr t = Ref 0"
    "cells w 0 = Some (junk\<lparr>right := Ref 0, left := Ref 0, father := Ref 0\<rparr>)"
    by (auto simp: bstree_new_def alloc_def store_def world0_def Let_def node_default_def)
  have "find_loop w v (Ref 0) = None"
    by (rule find_loop_self[OF w(2)]) (use assms in auto)
  then show ?thesis using w by (simp add: find_bs_def load_def)
qed

lemma find_empty_uninit:
  assumes "bstree_new junk me world0 = Inr (w, t)" "data junk = None"
  shows "find_bs w t v = Some (Inl UninitRead)"
proof -
  from assms(1) have w: "header_ptr t = Ref 0"
    "cells w 0 = Some (junk\<lparr>right := Ref 0, left := Ref 0, father := Ref 0\<rparr>)"
    by (auto simp: bstree_new_def alloc_def store_def world0_def Let_def node_default_def)
  show ?thesis using w assms(2) by (simp add: find_bs_def load_def find_loop.simps)
qed

section \<open>find on a tree that is not empty\<close>

lemma find_shape:
  "shape Null w p f T \<Longrightarrow> find_loop w v p = Some (Inr (locate v T))"
proof (induction T arbitrary: p f)
  case Leaf
  then show ?case by (simp add: find_loop.simps)
next
  case (Node l ax r)
  obtain a x where ax: "ax = (a, x)" by (cases ax)
  from Node.prems(1) obtain n where n: "p = Ref a" "cells w a = Some n" "data n = Some x"
    "shape Null w (left n) (Ref a) l" "shape Null w (right n) (Ref a) r"
    by (auto simp: ax split: option.splits)
  show ?case using n Node.IH(1)[OF n(4)] Node.IH(2)[OF n(5)]
    by (subst find_loop.simps) (simp add: ax)
qed

lemma locate_bst:
  "bst (elems T) \<Longrightarrow>
   (if v \<in> set_tree (elems T) then \<exists>a. locate v T = Ref a \<and> (a, v) \<in> set_tree T
    else locate v T = Null)"
proof (induction T)
  case Leaf
  then show ?case by simp
next
  case (Node l ax r)
  obtain a x where ax: "ax = (a, x)" by (cases ax)
  from Node.prems have b: "bst (elems l)" "bst (elems r)"
    "\<forall>y\<in>set_tree (elems l). y < x" "\<forall>y\<in>set_tree (elems r). x < y"
    by (auto simp: ax)
  consider "v = x" | "v < x" | "x < v" by (cases v x rule: linorder_cases) auto
  then show ?case
  proof cases
    case 1
    then show ?thesis by (simp add: ax)
  next
    case 2
    then have "v \<notin> set_tree (elems r)" using b(4) by auto
    then show ?thesis using 2 Node.IH(1)[OF b(1)] by (auto simp: ax split: if_splits)
  next
    case 3
    then have "v \<notin> set_tree (elems l)" using b(3) by auto
    then show ?thesis using 3 Node.IH(2)[OF b(2)] by (auto simp: ax split: if_splits)
  qed
qed

lemma find_nonempty:
  assumes "holds_tree Null w t T" "T \<noteq> Leaf" "bst (elems T)"
  shows "if v \<in> set_tree (elems T)
         then \<exists>a. find_bs w t v = Some (Inr (Ref a)) \<and> (a, v) \<in> set_tree T
         else find_bs w t v = Some (Inr (end_bs t))"
proof -
  from assms obtain h hn where h: "header_ptr t = Ref h" "cells w h = Some hn"
    "shape Null w (father hn) (Ref h) T"
    by (auto simp: holds_tree_def split: ptr.splits option.splits)
  have "find_bs w t v = Some (Inr (if locate v T = Null then end_bs t else locate v T))"
    using h find_shape[OF h(3), of v] by (simp add: find_bs_def load_def)
  then show ?thesis using locate_bst[OF assms(3), of v] by (auto split: if_splits)
qed

section \<open>Moving a node\<close>

lemma move_null:
  assumes "shape Null w other f (Node l (a, x) r)" "l = Leaf \<or> r = Leaf"
  shows "node_move w other pf = Inl NullDeref"
proof -
  from assms(1) obtain n where n: "other = Ref a" "cells w a = Some n"
    "shape Null w (left n) (Ref a) l" "shape Null w (right n) (Ref a) r"
    by (auto split: option.splits)
  show ?thesis
  proof (cases "r = Leaf")
    case True
    then have "right n = Null" using n(4) by simp
    then show ?thesis using n(1,2)
      by (simp add: node_move_def load_def alloc_def store_def)
  next
    case False
    then have "l = Leaf" using assms(2) by simp
    then have ln: "left n = Null" using n(3) by simp
    obtain b k where b: "right n = Ref b" "cells w b = Some k"
      using n(4) False by (cases r) (auto split: option.splits)
    show ?thesis using n(1,2) ln b
      by (simp add: node_move_def load_def alloc_def store_def)
  qed
qed

section \<open>Running the model on concrete trees\<close>

lemmas run_defs = build_def bstree_new_def alloc_def store_def load_def world0_def Let_def
  insert_bs_def empty_bs_def insert_first_def node_leaf_def node_default_def insert_attach_def
  adjust_left_def adjust_right_def rd_def nulled_def blank_def

lemma walk_stuck:
  assumes "increment w p = Some (Inr p)" "load w p = Inr n" "data n = Some x" "p \<noteq> end_bs t"
  shows "walk k w t p = Some (Inr (replicate k x, False))"
  using assms by (induction k) (auto simp: rd_def)

section \<open>The ordering invariant where unwritten child pointers read as null\<close>

text \<open>
  With \<open>left\<close> and \<open>right\<close> of fresh storage reading as null, every sequence of
  \<^verbatim>\<open>insert\<close> calls returns a search tree holding exactly the inserted values; with both
  indeterminate, a sequence returns such a tree of at most one node or stops in the read
  of a pointer that was never written. The code itself establishes neither reading.
\<close>

lemma insert_order_null_or_indet:
  assumes "left junk = nil" "right junk = nil" "nil = Null \<or> nil = Indet"
  shows "(\<exists>w t T. build junk vs = Some (Inr (w, t)) \<and> holds_tree nil w t T \<and>
            bst (elems T) \<and> distinct (inorder (elems T)) \<and> set_tree (elems T) = set vs) \<or>
         (nil = Indet \<and> build junk vs = Some (Inl UninitRead))"
proof -
  from new_sound[of junk 0] obtain w t where new: "bstree_new junk 0 world0 = Inr (w, t)"
    "sound w t Leaf" by blast
  from assms(3) show ?thesis
  proof
    assume nil: "nil = Null"
    from inserts_sound[OF new(2), of junk vs] assms(1,2) nil
    obtain w' T' where r: "inserts junk vs w t = Some (Inr (w', t))" "sound w' t T'"
      "set_tree (elems T') = set vs" by auto
    have "bst (elems T')" using r(2) by (auto simp: sound_def)
    then show ?thesis using r new(1) sound_holds[OF r(2)] bst_distinct nil
      by (auto simp: build_def)
  next
    assume nil: "nil = Indet"
    show ?thesis
    proof (cases vs)
      case Nil
      then show ?thesis using new(1) new_holds[OF new(1), of nil] by (auto simp: build_def)
    next
      case (Cons v vs')
      from first_lone[OF new(1), of v] assms(1,2) nil
      obtain w1 where w1: "insert_bs junk v w t = Some (Inr (w1, t))" "lone w1 t 1 v" by auto
      show ?thesis
      proof (cases "set vs' \<subseteq> {v}")
        case True
        then have "build junk vs = Some (Inr (w1, t))"
          using new(1) w1 inserts_lone[OF w1(2), of junk vs'] by (simp add: build_def Cons)
        moreover have "set vs = {v}" using True Cons by auto
        ultimately show ?thesis using lone_holds[OF w1(2)] nil by auto
      next
        case False
        then have "build junk vs = Some (Inl UninitRead)"
          using new(1) w1 inserts_lone[OF w1(2), of junk vs'] by (simp add: build_def Cons)
        then show ?thesis using nil by simp
      qed
    qed
  qed
qed

section \<open>The claims\<close>

text \<open>
  C1. The claim: after \<^verbatim>\<open>insert\<close> calls that leave the tree non-empty, the sentinel's
  \<open>right\<close> is the minimum node and its \<open>left\<close> the maximum node, so \<^verbatim>\<open>front()\<close> is the
  minimum and \<^verbatim>\<open>back()\<close> the maximum. What the code does: \<^verbatim>\<open>insert\<close> moves the
  sentinel's \<open>left\<close> along \<open>left\<close> children and its \<open>right\<close> along \<open>right\<close> children,
  while \<^verbatim>\<open>_left_most()\<close> reads \<open>right\<close> and \<^verbatim>\<open>_right_most()\<close> reads \<open>left\<close>. After
  inserting 5 and 3, \<^verbatim>\<open>front()\<close> is 5 and \<^verbatim>\<open>back()\<close> is 3; after 5, 3, 8, 1, 4, 7, 9 they
  are 9 and 1. With indeterminate unwritten members the second call already reads the
  root's child pointer, which the leaf constructor never wrote.
\<close>

theorem front_back_swapped:
  "(\<exists>w t. build nulled [5, 3 :: int] = Some (Inr (w, t)) \<and>
      front_bs w t = Inr 5 \<and> back_bs w t = Inr 3) \<and>
   (\<exists>w t. build nulled [5, 3, 8, 1, 4, 7, 9 :: int] = Some (Inr (w, t)) \<and>
      front_bs w t = Inr 9 \<and> back_bs w t = Inr 1) \<and>
   build blank [5, 3 :: int] = Some (Inl UninitRead)"
  by (simp add: run_defs front_bs_def back_bs_def insert_search.simps)

text \<open>
  C2. The claim: iterating from \<^verbatim>\<open>begin()\<close> by \<^verbatim>\<open>operator++\<close> yields the values in
  ascending order, exactly \<^verbatim>\<open>size()\<close> of them, and the increment at the largest value
  yields \<^verbatim>\<open>end()\<close>. What the code does: in the tree holding only 5 the increment at
  that node returns the same node (the climb reaches the sentinel, whose \<open>right\<close> is the
  root, and steps back down), so the iteration never reaches \<^verbatim>\<open>end()\<close>; after 5, 3, 8
  \<^verbatim>\<open>begin()\<close> is the node of 8 and the iteration yields 8 alone; \<^verbatim>\<open>size()\<close> is 0 in
  both. With indeterminate unwritten members the first increment reads a child pointer
  that was never written.
\<close>

theorem traversal_from_begin:
  "(\<exists>w t. build nulled [5 :: int] = Some (Inr (w, t)) \<and>
      begin_bs w t = Inr (Ref 1) \<and> end_bs t = Ref 0 \<and> size_bs t = 0 \<and>
      increment w (Ref 1) = Some (Inr (Ref 1)) \<and>
      (\<forall>k. walk k w t (Ref 1) = Some (Inr (replicate k 5, False)))) \<and>
   (\<exists>w t. build nulled [5, 3, 8 :: int] = Some (Inr (w, t)) \<and>
      begin_bs w t = Inr (Ref 3) \<and> size_bs t = 0 \<and>
      walk 4 w t (Ref 3) = Some (Inr ([8], True))) \<and>
   (\<exists>w t. build blank [5 :: int] = Some (Inr (w, t)) \<and>
      begin_bs w t = Inr (Ref 1) \<and> increment w (Ref 1) = Some (Inl UninitRead))"
proof -
  obtain w t where b: "build nulled [5 :: int] = Some (Inr (w, t))"
    and c: "cells w 0 = Some \<lparr>data = None, father = Ref 1, left = Ref 1, right = Ref 1\<rparr>"
      "cells w 1 = Some \<lparr>data = Some 5, father = Ref 0, left = Null, right = Null\<rparr>"
      "header_ptr t = Ref 0" "size_f t = 0"
    by (simp add: run_defs)
  have i: "increment w (Ref 1) = Some (Inr (Ref 1))"
    using c by (simp add: increment_def load_def climb_right.simps)
  have "walk k w t (Ref 1) = Some (Inr (replicate k 5, False))" for k
    by (rule walk_stuck[OF i]) (use c in \<open>auto simp: load_def end_bs_def\<close>)
  then have 1: "\<exists>w t. build nulled [5 :: int] = Some (Inr (w, t)) \<and>
      begin_bs w t = Inr (Ref 1) \<and> end_bs t = Ref 0 \<and> size_bs t = 0 \<and>
      increment w (Ref 1) = Some (Inr (Ref 1)) \<and>
      (\<forall>k. walk k w t (Ref 1) = Some (Inr (replicate k 5, False)))"
    using b c i by (auto simp: begin_bs_def end_bs_def size_bs_def load_def)
  have 2: "\<exists>w t. build nulled [5, 3, 8 :: int] = Some (Inr (w, t)) \<and>
      begin_bs w t = Inr (Ref 3) \<and> size_bs t = 0 \<and>
      walk 4 w t (Ref 3) = Some (Inr ([8], True))"
    by (simp add: run_defs insert_search.simps begin_bs_def end_bs_def size_bs_def
        increment_def climb_right.simps descend_left.simps numeral_eq_Suc)
  have 3: "\<exists>w t. build blank [5 :: int] = Some (Inr (w, t)) \<and>
      begin_bs w t = Inr (Ref 1) \<and> increment w (Ref 1) = Some (Inl UninitRead)"
    by (simp add: run_defs begin_bs_def increment_def)
  from 1 2 3 show ?thesis by blast
qed

text \<open>
  C3. The claim: \<^verbatim>\<open>insert\<close> of a value that is not present increases \<^verbatim>\<open>size()\<close> by
  one. What the code does: no \<^verbatim>\<open>insert\<close> call changes \<^verbatim>\<open>size()\<close>, whatever the value
  and the tree; after inserting 5 into the empty tree \<^verbatim>\<open>size()\<close> is still 0.
\<close>

theorem insert_never_counts:
  "insert_bs junk v w t = Some (Inr (w', t')) \<Longrightarrow> size_bs t' = size_bs t"
  by (auto simp: insert_bs_def split: sum.splits bool.splits option.splits)

theorem insert_never_counts_witness:
  "\<exists>(w :: int world) t w' t'. bstree_new nulled 0 world0 = Inr (w, t) \<and>
     insert_bs nulled 5 w t = Some (Inr (w', t')) \<and> size_bs t' = 0"
proof -
  obtain w :: "int world" and t where n: "bstree_new nulled 0 world0 = Inr (w, t)"
    and z: "size_bs t = 0"
    by (simp add: run_defs size_bs_def)
  obtain w' t' where i: "insert_bs nulled (5 :: int) w t = Some (Inr (w', t'))"
    using n by (auto simp: run_defs)
  from insert_never_counts[OF i] z n i show ?thesis by auto
qed

text \<open>
  C4. The claim: every tree reachable from the empty tree by \<^verbatim>\<open>insert\<close> calls satisfies
  the ordering invariant of a binary search tree and holds no duplicate. What the code
  does: the leaf constructor writes \<open>data\<close> and \<open>father\<close> and leaves \<open>left\<close> and \<open>right\<close>
  of every new node unwritten, and the next \<^verbatim>\<open>insert\<close> reads them. After inserting 5,
  the call that inserts 3 reads the root's \<open>left\<close>, which was never written: with
  indeterminate unwritten members no tree is produced. Where the storage of a new node
  holds the address 1 in \<open>right\<close>, the two calls return, and the node of 5 is its own
  right child: 5 lies in the right subtree of 5, and the nodes below the sentinel form
  no tree at all, whatever stands for a missing child. (The invariant holds where
  unwritten child pointers read as null: lemma \<open>insert_order_null_or_indet\<close>.)
\<close>

theorem unwritten_children_break_insert:
  "build blank [5, 3 :: int] = Some (Inl UninitRead) \<and>
   (\<exists>w t n. build (nulled\<lparr>right := Ref 1\<rparr>) [5, 3 :: int] = Some (Inr (w, t)) \<and>
      begin_bs w t = Inr (Ref 1) \<and>
      cells w 1 = Some n \<and> data n = Some 5 \<and> right n = Ref 1 \<and>
      (\<forall>nil T. \<not> holds_tree nil w t T))"
proof -
  have a: "build blank [5, 3 :: int] = Some (Inl UninitRead)"
    by (simp add: run_defs insert_search.simps)
  obtain w t where b: "build (nulled\<lparr>right := Ref 1\<rparr>) [5, 3 :: int] = Some (Inr (w, t))"
    and c: "header_ptr t = Ref 0"
      "cells w 0 = Some \<lparr>data = None, father = Ref 1, left = Ref 2, right = Ref 1\<rparr>"
      "cells w 1 = Some \<lparr>data = Some 5, father = Ref 0, left = Ref 2, right = Ref 1\<rparr>"
      "cells w 2 = Some \<lparr>data = Some 3, father = Ref 1, left = Null, right = Ref 1\<rparr>"
    by (simp add: run_defs insert_search.simps)
  have no: "\<not> holds_tree nil w t T" for nil T
  proof
    assume h: "holds_tree nil w t T"
    show False
    proof (cases T)
      case Leaf
      then show ?thesis using h c by (simp add: holds_tree_def)
    next
      case (Node l ax r)
      obtain a x where ax: "ax = (a, x)" by (cases ax)
      from h Node c have s: "shape nil w (Ref 1) (Ref 0) (Node l (a, x) r)"
        by (simp add: holds_tree_def ax)
      then have a1: "a = 1" and sl: "shape nil w (Ref 2) (Ref 1) l"
        and sr: "shape nil w (Ref 1) (Ref 1) r"
        using c by auto
      have nil: "nil = Ref 1"
      proof (cases r)
        case Leaf
        then show ?thesis using sr by simp
      next
        case (Node rl rax rr)
        then show ?thesis using sr c by (cases rax) auto
      qed
      show False
      proof (cases l)
        case Leaf
        then show ?thesis using sl nil by simp
      next
        case (Node ll lax lr)
        obtain la lx where lax: "lax = (la, lx)" by (cases lax)
        from sl Node c have "shape nil w Null (Ref 2) ll" by (auto simp: lax)
        then show ?thesis using nil by (cases ll) auto
      qed
    qed
  qed
  show ?thesis using a b c no by (auto simp: begin_bs_def load_def)
qed

text \<open>
  C5. The claim: on every tree that satisfies the ordering invariant \<^verbatim>\<open>find\<close> returns
  the node holding the value, or \<^verbatim>\<open>end()\<close> when no node holds it. What the code does
  on the empty tree: the search starts at the sentinel (the root of an empty tree), not
  at a null pointer. It reads the sentinel's \<open>data\<close>, which no constructor wrote; when
  that member holds a value other than the one sought, the search steps from the
  sentinel to the sentinel and never returns. (On a tree that is not empty the claim
  holds: lemma \<open>find_nonempty\<close>.)
\<close>

theorem find_on_empty_tree:
  "(\<exists>w t. bstree_new blank 0 world0 = Inr (w, t) \<and> empty_bs w t = Inr True \<and>
      find_bs w t (5 :: int) = Some (Inl UninitRead)) \<and>
   (\<exists>w t. bstree_new (nulled\<lparr>data := Some 0\<rparr>) 0 world0 = Inr (w, t) \<and>
      empty_bs w t = Inr True \<and> find_bs w t (5 :: int) = None)"
proof -
  obtain w :: "int world" and t where a: "bstree_new blank 0 world0 = Inr (w, t)"
    and ea: "empty_bs w t = Inr True"
    by (simp add: run_defs)
  obtain w' :: "int world" and t' where
    b: "bstree_new (nulled\<lparr>data := Some 0\<rparr>) 0 world0 = Inr (w', t')"
    and eb: "empty_bs w' t' = Inr True"
    by (simp add: run_defs)
  have "find_bs w t 5 = Some (Inl UninitRead)"
    by (rule find_empty_uninit[OF a]) (simp add: blank_def)
  moreover have "find_bs w' t' 5 = None"
    using find_empty_diverges[OF b, of 0 5] by simp
  ultimately show ?thesis using a b ea eb by blast
qed

text \<open>
  C6. The claim: move construction works for every node, including a node with no child
  or one child. What the code does: \<^verbatim>\<open>left->father = right->father = this\<close>
  dereferences both child pointers without a test, so moving a node of a tree that
  lacks a left or a right child dereferences a null pointer.
\<close>

theorem move_needs_both_children:
  assumes "shape Null w other f (Node l (a, x) r)" "l = Leaf \<or> r = Leaf"
  shows "node_move w other pf = Inl NullDeref"
  using assms by (rule move_null)

theorem move_needs_both_children_witness:
  "\<exists>w t. build nulled [5, 3 :: int] = Some (Inr (w, t)) \<and>
     node_move w (Ref 2) Null = Inl NullDeref \<and> node_move w (Ref 1) Null = Inl NullDeref"
proof -
  obtain w t where b: "build nulled [5, 3 :: int] = Some (Inr (w, t))"
    and s: "shape Null w (Ref 2) (Ref 1) (Node Leaf (2, 3) Leaf)"
      "shape Null w (Ref 1) (Ref 0) (Node (Node Leaf (2, 3) Leaf) (1, 5) Leaf)"
    by (simp add: run_defs insert_search.simps)
  from move_needs_both_children[OF s(1)] move_needs_both_children[OF s(2)] b
  show ?thesis by auto
qed

text \<open>
  C7. The claim: copy assignment makes the destination hold the same ordered sequence
  of values as the source, with the same \<^verbatim>\<open>size()\<close>. What the code does: it clones the
  nodes below the destination's sentinel and writes neither the sentinel's \<open>left\<close> and
  \<open>right\<close> nor \<^verbatim>\<open>_size\<close>. Assigning the tree of 5, 3, 8 to a new tree leaves a
  destination that is not empty and can find 3, but whose \<^verbatim>\<open>begin()\<close> is \<^verbatim>\<open>end()\<close>
  (the iteration yields nothing) and whose \<^verbatim>\<open>front()\<close> reads the sentinel's \<open>data\<close>.
  With indeterminate unwritten members, clearing the copy reads a child pointer that
  the copy constructor never wrote.
\<close>

theorem copy_assignment_leaves_caches:
  "(\<exists>w src w1 dst w2 dst'.
      build nulled [5, 3, 8 :: int] = Some (Inr (w, src)) \<and>
      bstree_new nulled 1 w = Inr (w1, dst) \<and>
      assign_copy nulled w1 dst src = Some (Inr (w2, dst')) \<and>
      empty_bs w2 dst' = Inr False \<and>
      begin_bs w2 dst' = Inr (end_bs dst') \<and>
      front_bs w2 dst' = Inl UninitRead \<and>
      find_bs w2 dst' 3 = Some (Inr (Ref 6))) \<and>
   (\<exists>w src w1 dst w2 dst'.
      build nulled [5, 3, 8 :: int] = Some (Inr (w, src)) \<and>
      bstree_new blank 1 w = Inr (w1, dst) \<and>
      assign_copy blank w1 dst src = Some (Inr (w2, dst')) \<and>
      clear_bs w2 dst' = Some (Inl UninitRead))"
  by (simp add: run_defs insert_search.simps assign_copy_def clear_bs_def node_copy.simps
      begin_bs_def end_bs_def front_bs_def find_bs_def find_loop.simps node_delete.simps)

text \<open>
  C8. On every tree that is not empty, \<^verbatim>\<open>clear()\<close> returns, every node of the tree is
  deleted, the sentinel is still allocated and unchanged but for its \<open>father\<close>, which is
  the sentinel again, so that \<^verbatim>\<open>empty()\<close> is true, and \<^verbatim>\<open>size()\<close> is what it was.
  A tree here is well formed: a missing child is a null pointer and no node occurs
  twice. (Where a node's child pointers were never written, \<^verbatim>\<open>clear()\<close> reads them:
  lemma \<open>clear_lone\<close>.)
\<close>

theorem clear_frees_nodes_not_size:
  assumes "holds_tree Null w t T" "T \<noteq> Leaf"
  shows "\<exists>w' t' hn. clear_bs w t = Some (Inr (w', t')) \<and>
           (\<forall>a\<in>addrs T. cells w' a = None) \<and>
           load w (header_ptr t) = Inr hn \<and>
           load w' (header_ptr t') = Inr (hn\<lparr>father := header_ptr t\<rparr>) \<and>
           empty_bs w' t' = Inr True \<and>
           header_ptr t' = header_ptr t \<and> size_bs t' = size_bs t"
proof -
  from assms obtain h hn where h: "header_ptr t = Ref h" "cells w h = Some hn" "h \<notin> addrs T"
    "separate T" "shape Null w (father hn) (Ref h) T"
    by (auto simp: holds_tree_def split: ptr.splits option.splits)
  obtain l a x r where T: "T = Node l (a, x) r" using assms(2) by (cases T) auto
  have root: "father hn = Ref a" "a \<noteq> h" using h(5) h(3) by (auto simp: T)
  have e: "empty_bs w t = Inr False" using h(1,2) root by (simp add: empty_bs_def load_def)
  have ld: "load w (Ref h) = Inr hn" using h(1,2) by (simp add: load_def)
  have d: "node_delete w (father hn) = Some (Inr (release w (addrs T)))"
    by (rule delete_shape[OF h(5) h(4)])
  define w2 where
    "w2 = (release w (addrs T))\<lparr>cells := (cells (release w (addrs T)))(h := Some (hn\<lparr>father := Ref h\<rparr>))\<rparr>"
  have st: "store (release w (addrs T)) (Ref h) (\<lambda>n. n\<lparr>father := Ref h\<rparr>) = Inr w2"
    using h(2,3) by (simp add: store_def w2_def)
  have run: "clear_bs w t = Some (Inr (w2, t))"
    using h(1) by (simp add: clear_bs_def e ld d st)
  have "\<forall>a\<in>addrs T. cells w2 a = None" using h(3) by (auto simp: w2_def)
  moreover have "load w2 (header_ptr t) = Inr (hn\<lparr>father := header_ptr t\<rparr>)"
    using h(1) by (simp add: load_def w2_def)
  moreover have "empty_bs w2 t = Inr True"
    using h(1) by (simp add: empty_bs_def load_def w2_def)
  ultimately show ?thesis using run ld h(1) by auto
qed

theorem clear_frees_nodes_not_size_witness:
  "\<exists>w t w' t'. build nulled [5, 3, 8 :: int] = Some (Inr (w, t)) \<and>
     clear_bs w (t\<lparr>size_f := 3\<rparr>) = Some (Inr (w', t')) \<and>
     cells w' 1 = None \<and> cells w' 2 = None \<and> cells w' 3 = None \<and>
     load w' (header_ptr t') = Inr \<lparr>data = None, father = Ref 0, left = Ref 2, right = Ref 3\<rparr> \<and>
     empty_bs w' t' = Inr True \<and> size_bs t' = 3"
proof -
  let ?T = "Node (Node Leaf (2, 3 :: int) Leaf) (1, 5) (Node Leaf (3, 8) Leaf)"
  obtain w t where b: "build nulled [5, 3, 8 :: int] = Some (Inr (w, t))"
    and s: "holds_tree Null w (t\<lparr>size_f := 3\<rparr>) ?T"
    and l: "load w (header_ptr t) = Inr \<lparr>data = None, father = Ref 1, left = Ref 2, right = Ref 3\<rparr>"
      "header_ptr t = Ref 0"
    by (simp add: run_defs insert_search.simps holds_tree_def)
  from clear_frees_nodes_not_size[OF s] l
  obtain w' t' where "clear_bs w (t\<lparr>size_f := 3\<rparr>) = Some (Inr (w', t'))"
    "\<forall>a\<in>addrs ?T. cells w' a = None"
    "load w' (header_ptr t') = Inr \<lparr>data = None, father = Ref 0, left = Ref 2, right = Ref 3\<rparr>"
    "empty_bs w' t' = Inr True" "size_bs t' = 3"
    by (auto simp: size_bs_def)
  then show ?thesis using b by auto
qed

text \<open>
  C9. The default node constructor writes no member. The copy constructor, run on the
  root of a tree, returns a clone of the same form and elements in which every missing
  child is the value the storage held before (\<open>left junk\<close>, whatever it is): the
  constructor did not write it. When that value is indeterminate, deleting the clone and
  incrementing an iterator at it both read a pointer that was never written.
\<close>

theorem copy_leaves_absent_children_unwritten:
  assumes "shape Null w other f T" "T \<noteq> Leaf" "\<forall>a\<in>addrs T. a < next_addr w"
    and "right junk = left junk"
  shows "node_default junk = junk \<and>
         (\<exists>c w' T'. node_copy junk w other pf = Some (Inr (c, w')) \<and>
            shape (left junk) w' (Ref c) pf T' \<and> elems T' = elems T \<and>
            (left junk = Indet \<longrightarrow>
               node_delete w' (Ref c) = Some (Inl UninitRead) \<and>
               increment w' (Ref c) = Some (Inl UninitRead)))"
proof -
  from copy_shape[OF assms(1,2,3) refl assms(4), of pf]
  obtain w' T' where c: "node_copy junk w other pf = Some (Inr (next_addr w, w'))"
    "shape (left junk) w' (Ref (next_addr w)) pf T'" "elems T' = elems T" by blast
  have nl: "T' \<noteq> Leaf" using c(3) assms(2) by (cases T'; cases T) auto
  have "left junk = Indet \<longrightarrow>
          node_delete w' (Ref (next_addr w)) = Some (Inl UninitRead) \<and>
          increment w' (Ref (next_addr w)) = Some (Inl UninitRead)"
    using c(2) nl delete_indet increment_indet by metis
  then show ?thesis using c by (auto simp: node_default_def)
qed

theorem copy_leaves_absent_children_unwritten_witness:
  "\<exists>w t c w' T'. build nulled [5, 3 :: int] = Some (Inr (w, t)) \<and>
     node_copy blank w (Ref 1) Null = Some (Inr (c, w')) \<and>
     shape Indet w' (Ref c) Null T' \<and> elems T' = Node (Node Leaf 3 Leaf) 5 Leaf \<and>
     node_delete w' (Ref c) = Some (Inl UninitRead) \<and>
     increment w' (Ref c) = Some (Inl UninitRead)"
proof -
  let ?T = "Node (Node Leaf (2, 3 :: int) Leaf) (1, 5) Leaf"
  obtain w t where b: "build nulled [5, 3 :: int] = Some (Inr (w, t))"
    and s: "shape Null w (Ref 1) (Ref 0) ?T" "\<forall>a\<in>addrs ?T. a < next_addr w"
    by (simp add: run_defs insert_search.simps)
  have j: "right (blank :: int bst_node) = left blank" "left (blank :: int bst_node) = Indet"
    by (simp_all add: blank_def)
  from copy_leaves_absent_children_unwritten[OF s(1) _ s(2) j(1), of Null] j(2)
  show ?thesis using b by auto
qed

text \<open>
  C10. The constructor from a value sets \<^verbatim>\<open>_header_ptr\<close> to null and then
  dereferences it: for every value, in every store, construction ends in a null
  dereference and yields no tree.
\<close>

theorem value_constructor_null:
  "bstree_val junk me w v = Inl NullDeref"
  by (simp add: bstree_val_def load_def)

end
